theory Spec2Isabelle
  imports Main "HOL-Library.Sublist"
begin

section \<open>C strings and the libc functions the sources call\<close>

text \<open>
  A C string is modelled by the list of its bytes before the terminating NUL. The
  character classes are those of the "C" locale (which a UTF-8 locale shares on single
  bytes): only the ASCII letters and digits are alphanumeric, and only \<open>A\<close>..\<open>Z\<close> have a
  lower-case counterpart.
\<close>

definition isupper :: "char \<Rightarrow> bool" where
  "isupper c = (65 \<le> (of_char c :: nat) \<and> (of_char c :: nat) \<le> 90)"

definition islower :: "char \<Rightarrow> bool" where
  "islower c = (97 \<le> (of_char c :: nat) \<and> (of_char c :: nat) \<le> 122)"

definition isdigit :: "char \<Rightarrow> bool" where
  "isdigit c = (48 \<le> (of_char c :: nat) \<and> (of_char c :: nat) \<le> 57)"

definition isalnum :: "char \<Rightarrow> bool" where
  "isalnum c = (isdigit c \<or> isupper c \<or> islower c)"

definition tolower :: "char \<Rightarrow> char" where
  "tolower c = (if isupper c then char_of ((of_char c :: nat) + 32) else c)"

text \<open>\<open>strrchr(s, c)\<close>: the suffix of \<open>s\<close> that starts at the last \<open>c\<close>, or NULL.\<close>

fun strrchr :: "string \<Rightarrow> char \<Rightarrow> string option" where
  "strrchr [] c = None"
| "strrchr (x # xs) c =
     (case strrchr xs c of
        Some r \<Rightarrow> Some r
      | None \<Rightarrow> if x = c then Some (x # xs) else None)"

text \<open>\<open>strstr(h, n)\<close>: the suffix of \<open>h\<close> that starts at the first occurrence of \<open>n\<close>.\<close>

fun strstr :: "string \<Rightarrow> string \<Rightarrow> string option" where
  "strstr [] n = (if n = [] then Some [] else None)"
| "strstr (h # hs) n = (if prefix n (h # hs) then Some (h # hs) else strstr hs n)"

text \<open>
  \<open>strcasecmp\<close> and \<open>strncasecmp\<close> are only ever tested against zero; the model returns
  whether the C function returns 0.
\<close>

definition strcasecmp_is0 :: "string \<Rightarrow> string \<Rightarrow> bool" where
  "strcasecmp_is0 a b = (map tolower a = map tolower b)"

definition strncasecmp_is0 :: "string \<Rightarrow> string \<Rightarrow> nat \<Rightarrow> bool" where
  "strncasecmp_is0 a b n = (map tolower (take n a) = map tolower (take n b))"

section \<open>subtitles.c: name helpers\<close>

text \<open>
  \<open>strcpy_trim\<close>: after the leading separators are skipped, the loop copies one word in
  lower case, stops if the source is exhausted, skips the separators that follow, stops
  if the source is exhausted, and otherwise writes one space and goes round again.
\<close>

function strcpy_trim_loop :: "string \<Rightarrow> string" where
  "strcpy_trim_loop s =
     (let w = map tolower (takeWhile isalnum s);
          s1 = dropWhile isalnum s
      in if s1 = [] then w
         else let s2 = dropWhile (\<lambda>c. \<not> isalnum c) s1
              in if s2 = [] then w
                 else w @ CHR '' '' # strcpy_trim_loop s2)"
  by pat_completeness auto
termination
proof (relation "measure length")
  show "wf (measure length)" by simp
next
  fix s :: string and w s1 s2
  assume s1: "s1 = dropWhile isalnum s" and ne: "s1 \<noteq> []"
    and s2: "s2 = dropWhile (\<lambda>c. \<not> isalnum c) s1"
  from ne obtain c cs where c: "s1 = c # cs" by (cases s1) auto
  have "dropWhile isalnum s = c # cs" using s1 c by simp
  hence "\<not> isalnum c" by (rule dropWhile_eq_Cons_conv [THEN iffD1, THEN conjunct2])
  hence "length s2 \<le> length cs" using s2 c by (simp add: length_dropWhile_le)
  moreover have "length s1 \<le> length s" using s1 by (simp add: length_dropWhile_le)
  ultimately show "(s2, s) \<in> measure length" using c by simp
qed

declare strcpy_trim_loop.simps [simp del]

definition strcpy_trim :: "string \<Rightarrow> string" where
  "strcpy_trim s = strcpy_trim_loop (dropWhile (\<lambda>c. \<not> isalnum c) s)"

text \<open>
  \<open>strcpy_strip_ext\<close>: without a dot the name is copied as it is (and not lower-cased);
  with one, the part before the last dot is copied and lower-cased.
\<close>

definition strcpy_strip_ext :: "string \<Rightarrow> string" where
  "strcpy_strip_ext s =
     (case strrchr s CHR ''.'' of
        None \<Rightarrow> s
      | Some tmp \<Rightarrow> map tolower (take (length s - length tmp) s))"

definition strcpy_get_ext :: "string \<Rightarrow> string" where
  "strcpy_get_ext s = (case strrchr s CHR ''.'' of None \<Rightarrow> [] | Some tmp \<Rightarrow> tl tmp)"

fun whiteonly :: "string \<Rightarrow> bool" where
  "whiteonly [] = True"
| "whiteonly (c # s) = (if isalnum c then False else whiteonly s)"

text \<open>
  \<open>subtitles_Filter\<close>: the text after the last dot is compared, ignoring case, with each
  entry of \<open>sub_exts\<close> up to the empty string that ends the table.
\<close>

definition sub_exts :: "string list" where
  "sub_exts =
     [''idx'', ''sub'', ''srt'',
      ''ssa'', ''ass'', ''smi'',
      ''utf'', ''utf8'', ''utf-8'',
      ''rt'', ''aqt'', ''txt'',
      ''usf'', ''jss'', ''cdg'',
      ''psb'', ''mpsub'', ''mpl2'',
      ''pjs'', ''dks'', ''stl'',
      ''vtt'', ''sbv'']"

definition subtitles_Filter :: "string \<Rightarrow> bool" where
  "subtitles_Filter psz_dir_content =
     (case strrchr psz_dir_content CHR ''.'' of
        None \<Rightarrow> False
      | Some tmp \<Rightarrow> list_ex (\<lambda>e. strcasecmp_is0 e (tl tmp)) sub_exts)"

section \<open>Priorities\<close>

text \<open>
  The enumeration \<open>slave_priority\<close> is declared in a header that is not among the
  sources. Its enumerators are the constructors below; wherever the code compares a
  priority as a number (against the threshold, or against
  \<open>SLAVE_PRIORITY_MATCH_ALL\<close>), the numeric value of the enumerators is a parameter
  \<open>pv\<close> of the model, so that nothing proved depends on the numbers chosen there.
  A priority stored in a \<open>uint8_t\<close> field is reduced modulo 256.
\<close>

datatype slave_priority =
    SLAVE_PRIORITY_NONE
  | SLAVE_PRIORITY_MATCH_NONE
  | SLAVE_PRIORITY_MATCH_RIGHT
  | SLAVE_PRIORITY_MATCH_LEFT
  | SLAVE_PRIORITY_MATCH_ALL

type_synonym prio_val = "slave_priority \<Rightarrow> int"

definition uint8 :: "int \<Rightarrow> int" where
  "uint8 x = x mod 256"

section \<open>subtitles.c: the scan of \<open>subtitles_Detect\<close>\<close>

record subtitle =
  psz_path :: "string option"
  i_priority :: int
  b_rejected :: bool

text \<open>\<open>subtitle_New\<close>: NULL for a NULL path, otherwise a fresh subtitle that is not rejected.\<close>

definition subtitle_New :: "string option \<Rightarrow> int \<Rightarrow> subtitle option" where
  "subtitle_New path prio =
     (case path of
        None \<Rightarrow> None
      | Some p \<Rightarrow> Some \<lparr>psz_path = Some p, i_priority = uint8 prio, b_rejected = False\<rparr>)"

text \<open>
  \<open>paths_to_list\<close>: the comma-separated list is cut at each comma, the blanks after a
  comma are skipped, empty pieces are dropped, and a piece that starts with a dot is
  prefixed with the directory of the movie.
\<close>

function paths_to_list_loop :: "string \<Rightarrow> string \<Rightarrow> string list" where
  "paths_to_list_loop psz_dir psz_parser =
     (if psz_parser = [] then []
      else
        let psz_subdir = takeWhile (\<lambda>c. c \<noteq> CHR '','') psz_parser;
            entry = (if psz_subdir \<noteq> [] \<and> hd psz_subdir = CHR ''.'' then psz_dir else []) @ psz_subdir
        in case dropWhile (\<lambda>c. c \<noteq> CHR '','') psz_parser of
             [] \<Rightarrow> [entry]
           | _ # r \<Rightarrow>
               if psz_subdir = []
               then paths_to_list_loop psz_dir (dropWhile (\<lambda>c. c = CHR '' '') r)
               else entry # paths_to_list_loop psz_dir (dropWhile (\<lambda>c. c = CHR '' '') r))"
  by pat_completeness auto
termination
proof (relation "measure (\<lambda>(d, p). length p)")
  show "wf (measure (\<lambda>(d, p). length p))" by simp
next
  fix psz_dir psz_parser :: string and x21 :: char and r :: string
  assume "dropWhile (\<lambda>c. c \<noteq> CHR '','') psz_parser = x21 # r"
  hence "length r < length psz_parser"
    using length_dropWhile_le [of "\<lambda>c. c \<noteq> CHR '',''" psz_parser] by simp
  moreover have "length (dropWhile (\<lambda>c. c = CHR '' '') r) \<le> length r"
    by (rule length_dropWhile_le)
  ultimately show
    "((psz_dir, dropWhile (\<lambda>c. c = CHR '' '') r), (psz_dir, psz_parser)) \<in> measure (\<lambda>(d, p). length p)"
    by simp
next
  fix psz_dir psz_parser :: string and x21 :: char and r :: string
  assume "dropWhile (\<lambda>c. c \<noteq> CHR '','') psz_parser = x21 # r"
  hence "length r < length psz_parser"
    using length_dropWhile_le [of "\<lambda>c. c \<noteq> CHR '',''" psz_parser] by simp
  moreover have "length (dropWhile (\<lambda>c. c = CHR '' '') r) \<le> length r"
    by (rule length_dropWhile_le)
  ultimately show
    "((psz_dir, dropWhile (\<lambda>c. c = CHR '' '') r), (psz_dir, psz_parser)) \<in> measure (\<lambda>(d, p). length p)"
    by simp
qed

declare paths_to_list_loop.simps [simp del]

definition paths_to_list :: "string \<Rightarrow> string option \<Rightarrow> string list option" where
  "paths_to_list psz_dir paths =
     (case paths of None \<Rightarrow> None | Some p \<Rightarrow> Some (paths_to_list_loop psz_dir p))"

text \<open>
  The priority that the body of the directory loop gives to the entry \<open>psz_name\<close>, from
  the trimmed name of the movie; \<open>primary\<close> says that the directory scanned is the one
  of the movie (\<open>j == -1\<close>).
\<close>

definition detect_prio :: "string \<Rightarrow> string \<Rightarrow> bool \<Rightarrow> slave_priority" where
  "detect_prio f_fname_trim psz_name primary =
     (let tmp_fname_noext = strcpy_strip_ext psz_name;
          tmp_fname_trim = strcpy_trim tmp_fname_noext
      in if tmp_fname_trim = f_fname_trim then SLAVE_PRIORITY_MATCH_ALL
         else case strstr tmp_fname_trim f_fname_trim of
                Some tmp \<Rightarrow>
                  if whiteonly (drop (length f_fname_trim) tmp)
                  then SLAVE_PRIORITY_MATCH_RIGHT
                  else SLAVE_PRIORITY_MATCH_LEFT
              | None \<Rightarrow>
                  if primary then SLAVE_PRIORITY_MATCH_NONE else SLAVE_PRIORITY_NONE)"

text \<open>
  The file system is a parameter: \<open>vlc_uri2path\<close>, the names that \<open>vlc_readdir\<close> yields
  for a directory that \<open>vlc_opendir\<close> can open, and whether \<open>vlc_stat\<close> succeeds on a path
  and finds a regular file. Every call made to it is recorded, in order. Memory
  allocation is taken to succeed, here and in \<open>directory.c\<close>, so that the branches for
  \<open>VLC_ENOMEM\<close> and for a failed \<open>strdup\<close> are not taken. The directory separator is
  that of the systems where it is a slash.
\<close>

record fs_env =
  vlc_uri2path :: "string \<Rightarrow> string option"
  vlc_opendir :: "string \<Rightarrow> string list option"
  stat_isreg :: "string \<Rightarrow> bool"

datatype io_call = Opendir string | Readdir string | Stat string

datatype retcode = VLC_SUCCESS | VLC_EGENERIC | VLC_ENOMEM

definition DIR_SEP :: string where
  "DIR_SEP = ''/''"

text \<open>One turn of the \<open>vlc_readdir\<close> loop, on the entry \<open>psz_name\<close> of \<open>psz_dir\<close>.\<close>

definition detect_entry ::
  "fs_env \<Rightarrow> prio_val \<Rightarrow> int \<Rightarrow> string \<Rightarrow> string \<Rightarrow> string \<Rightarrow> bool \<Rightarrow> string \<Rightarrow>
   subtitle list \<times> io_call list \<Rightarrow> subtitle list \<times> io_call list" where
  "detect_entry env pv i_fuzzy f_fname_trim psz_fname psz_dir primary psz_name acc =
     (case acc of (p_result, calls) \<Rightarrow>
        if (psz_name \<noteq> [] \<and> hd psz_name = CHR ''.'') \<or> \<not> subtitles_Filter psz_name
        then (p_result, calls)
        else
          let i_prio = pv (detect_prio f_fname_trim psz_name primary)
          in if i_prio \<ge> i_fuzzy
             then
               let path = psz_dir @ DIR_SEP @ psz_name
               in if path \<noteq> psz_fname
                  then if stat_isreg env path
                       then (case subtitle_New (Some path) i_prio of
                               Some p_sub \<Rightarrow> (p_result @ [p_sub], calls @ [Stat path])
                             | None \<Rightarrow> (p_result, calls @ [Stat path]))
                       else (p_result, calls @ [Stat path])
                  else (p_result, calls)
             else (p_result, calls))"

text \<open>
  The \<open>vlc_readdir\<close> loop over the entries of one opened directory. Every call is
  recorded, the last one too, which returns NULL and ends the loop.
\<close>

fun detect_readdir ::
  "fs_env \<Rightarrow> prio_val \<Rightarrow> int \<Rightarrow> string \<Rightarrow> string \<Rightarrow> string \<Rightarrow> bool \<Rightarrow> string list \<Rightarrow>
   subtitle list \<times> io_call list \<Rightarrow> subtitle list \<times> io_call list" where
  "detect_readdir env pv i_fuzzy f_fname_trim psz_fname psz_dir primary [] acc =
     (fst acc, snd acc @ [Readdir psz_dir])"
| "detect_readdir env pv i_fuzzy f_fname_trim psz_fname psz_dir primary (psz_name # names) acc =
     detect_readdir env pv i_fuzzy f_fname_trim psz_fname psz_dir primary names
       (detect_entry env pv i_fuzzy f_fname_trim psz_fname psz_dir primary psz_name
          (fst acc, snd acc @ [Readdir psz_dir]))"

text \<open>
  One turn of the loop over the directories: \<open>primary\<close> for \<open>j == -1\<close>. A configured
  directory equal to the one of the movie is passed over, and so is one that cannot be
  opened.
\<close>

definition detect_dir ::
  "fs_env \<Rightarrow> prio_val \<Rightarrow> int \<Rightarrow> string \<Rightarrow> string \<Rightarrow> string \<Rightarrow> bool \<Rightarrow> string \<Rightarrow>
   subtitle list \<times> io_call list \<Rightarrow> subtitle list \<times> io_call list" where
  "detect_dir env pv i_fuzzy f_fname_trim psz_fname f_dir primary psz_dir acc =
     (if \<not> primary \<and> psz_dir = f_dir then acc
      else case vlc_opendir env psz_dir of
             None \<Rightarrow> (fst acc, snd acc @ [Opendir psz_dir])
           | Some names \<Rightarrow>
               detect_readdir env pv i_fuzzy f_fname_trim psz_fname psz_dir primary names
                 (fst acc, snd acc @ [Opendir psz_dir]))"

fun detect_subdirs ::
  "fs_env \<Rightarrow> prio_val \<Rightarrow> int \<Rightarrow> string \<Rightarrow> string \<Rightarrow> string \<Rightarrow> string list \<Rightarrow>
   subtitle list \<times> io_call list \<Rightarrow> subtitle list \<times> io_call list" where
  "detect_subdirs env pv i_fuzzy f_fname_trim psz_fname f_dir [] acc = acc"
| "detect_subdirs env pv i_fuzzy f_fname_trim psz_fname f_dir (d # ds) acc =
     detect_subdirs env pv i_fuzzy f_fname_trim psz_fname f_dir ds
       (detect_dir env pv i_fuzzy f_fname_trim psz_fname f_dir False d acc)"


section \<open>subtitles.c: the pass over the collected list\<close>

text \<open>
  What stops a run short of its end: a read past the end of an array, a NULL pointer
  handed to a string function, the use of an object already freed.
\<close>

datatype fault = OutOfBounds | NullDeref | UseAfterFree

text \<open>
  The inner loop that looks for the index file of the \<open>sub\<close> file \<open>path\<close>. Its test is
  \<open>i < p_result->i_subtitles\<close>, which holds throughout, so \<open>j\<close> is not bounded: the
  loop is left by \<open>break\<close> alone, and once \<open>j\<close> reaches the number of subtitles it reads
  past the end of the array. The argument list is what is left of the array from \<open>j\<close>
  on; the result is \<open>None\<close> when the loop is left by \<open>break\<close>.
\<close>

fun idx_scan :: "string \<Rightarrow> subtitle list \<Rightarrow> fault option" where
  "idx_scan path [] = Some OutOfBounds"
| "idx_scan path (p_sub_inner # rest) =
     (case psz_path p_sub_inner of
        None \<Rightarrow> Some NullDeref
      | Some inner \<Rightarrow>
          (if \<not> strncasecmp_is0 path inner (length path - 3) then idx_scan path rest
           else (case strrchr inner CHR ''.'' of
                   None \<Rightarrow> idx_scan path rest
                 | Some psz_ext_inner \<Rightarrow>
                     if strcasecmp_is0 (tl psz_ext_inner) ''idx'' then None
                     else idx_scan path rest)))"

text \<open>
  One turn of the outer loop, on the subtitle \<open>p_sub\<close> of the array \<open>subs\<close>: the
  subtitle as the turn leaves it, and the fault that stopped the turn, if any.
\<close>

definition resolve_one :: "prio_val \<Rightarrow> subtitle list \<Rightarrow> subtitle \<Rightarrow> subtitle \<times> fault option" where
  "resolve_one pv subs p_sub =
     (case psz_path p_sub of
        None \<Rightarrow> (p_sub\<lparr>b_rejected := True\<rparr>, None)
      | Some path \<Rightarrow>
          (case strrchr path CHR ''.'' of
             None \<Rightarrow> (p_sub, None)
           | Some psz_ext \<Rightarrow>
               if strcasecmp_is0 (tl psz_ext) ''sub''
               then (case idx_scan path subs of
                       None \<Rightarrow> (p_sub\<lparr>b_rejected := True\<rparr>, None)
                     | Some f \<Rightarrow> (p_sub, Some f))
               else if strcasecmp_is0 (tl psz_ext) ''cdg''
               then (if i_priority p_sub < pv SLAVE_PRIORITY_MATCH_ALL
                     then (p_sub\<lparr>b_rejected := True\<rparr>, None)
                     else (p_sub, None))
               else (p_sub, None)))"

text \<open>
  The outer loop from index \<open>i\<close> on: the array as it stands when the loop stops, and the
  fault that stopped it, if any.
\<close>

function resolve_loop :: "prio_val \<Rightarrow> nat \<Rightarrow> subtitle list \<Rightarrow> subtitle list \<times> fault option" where
  "resolve_loop pv i subs =
     (if i < length subs
      then (if snd (resolve_one pv subs (subs ! i)) = None
            then resolve_loop pv (Suc i) (subs[i := fst (resolve_one pv subs (subs ! i))])
            else (subs[i := fst (resolve_one pv subs (subs ! i))],
                  snd (resolve_one pv subs (subs ! i))))
      else (subs, None))"
  by pat_completeness auto
termination
  by (relation "measure (\<lambda>(pv, i, subs). length subs - i)") auto

declare resolve_loop.simps [simp del]

definition subtitles_resolve :: "prio_val \<Rightarrow> subtitle list \<Rightarrow> subtitle list \<times> fault option" where
  "subtitles_resolve pv p_result = resolve_loop pv 0 p_result"

section \<open>subtitles.c: \<open>subtitles_Detect\<close>\<close>

text \<open>
  What a call leaves behind: the return value (none when a fault stopped the call), the
  list \<open>p_result\<close>, the calls made to the file system, and the fault, if any.
\<close>

record detect_out =
  ret :: "retcode option"
  result :: "subtitle list"
  calls :: "io_call list"
  stopped :: "fault option"

text \<open>
  The scan, from the split of the name of the movie to the end of the loop over the
  directories: nothing when the function returns \<open>VLC_EGENERIC\<close> before the loop,
  otherwise the list and the calls as the loop leaves them.
\<close>

definition detect_scan ::
  "fs_env \<Rightarrow> prio_val \<Rightarrow> int \<Rightarrow> string option \<Rightarrow> string option \<Rightarrow> subtitle list \<Rightarrow>
   (subtitle list \<times> io_call list) option" where
  "detect_scan env pv i_fuzzy paths psz_name_org p_result =
     (case psz_name_org of
        None \<Rightarrow> None
      | Some org \<Rightarrow>
     (case vlc_uri2path env org of
        None \<Rightarrow> None
      | Some psz_fname \<Rightarrow>
     (case strrchr psz_fname CHR ''/'' of
        None \<Rightarrow> None
      | Some sep \<Rightarrow>
          let f_fname = tl sep;
              f_dir = take (length psz_fname - length f_fname) psz_fname;
              f_fname_noext = strcpy_strip_ext f_fname;
              f_fname_trim = strcpy_trim f_fname_noext;
              subdirs = paths_to_list f_dir paths
          in Some (detect_subdirs env pv i_fuzzy f_fname_trim psz_fname f_dir
                     (case subdirs of None \<Rightarrow> [] | Some ds \<Rightarrow> ds)
                     (detect_dir env pv i_fuzzy f_fname_trim psz_fname f_dir True f_dir
                        (p_result, []))))))"

text \<open>
  The threshold is the configuration variable \<open>sub-autodetect-fuzzy\<close>, an integer of 64
  bits. \<open>subtitles_Detect\<close> and \<open>attach_slaves\<close> both store it in an \<open>int\<close> before they
  look at it; the conversion keeps the low 32 bits of the value, read as a signed
  number. The argument \<open>fuzzy\<close> of the two functions is the value of the variable.
\<close>

definition int_of_int64 :: "int \<Rightarrow> int" where
  "int_of_int64 v = (v + 2147483648) mod 4294967296 - 2147483648"

definition subtitles_Detect ::
  "fs_env \<Rightarrow> prio_val \<Rightarrow> int \<Rightarrow> string option \<Rightarrow> string option \<Rightarrow> subtitle list \<Rightarrow> detect_out" where
  "subtitles_Detect env pv fuzzy paths psz_name_org p_result =
     (let i_fuzzy = int_of_int64 fuzzy
      in if i_fuzzy = 0
         then \<lparr>ret = Some VLC_EGENERIC, result = p_result, calls = [], stopped = None\<rparr>
         else case detect_scan env pv i_fuzzy paths psz_name_org p_result of
           None \<Rightarrow> \<lparr>ret = Some VLC_EGENERIC, result = p_result, calls = [], stopped = None\<rparr>
         | Some scanned \<Rightarrow>
             let resolved = subtitles_resolve pv (fst scanned)
             in \<lparr>ret = (if snd resolved = None then Some VLC_SUCCESS else None),
                 result = fst resolved, calls = snd scanned, stopped = snd resolved\<rparr>)"

section \<open>directory.c: classification of the entries\<close>

datatype slave_type = SLAVE_TYPE_SPU | SLAVE_TYPE_AUDIO

definition ppsz_sub_exts :: "string list" where
  "ppsz_sub_exts =
     [''idx'', ''sub'', ''srt'',
      ''ssa'', ''ass'', ''smi'',
      ''utf'', ''utf8'', ''utf-8'',
      ''rt'', ''aqt'', ''txt'',
      ''usf'', ''jss'', ''cdg'',
      ''psb'', ''mpsub'', ''mpl2'',
      ''pjs'', ''dks'', ''stl'',
      ''vtt'', ''sbv'']"

definition ppsz_audio_exts :: "string list" where
  "ppsz_audio_exts = [''ac3'']"

definition p_slave_list :: "(slave_type \<times> string list) list" where
  "p_slave_list = [(SLAVE_TYPE_SPU, ppsz_sub_exts), (SLAVE_TYPE_AUDIO, ppsz_audio_exts)]"

text \<open>
  \<open>is_slave\<close>: the two tables are gone through in order, and each entry is compared
  with the extension by \<open>strncasecmp\<close> over the length of the extension only.
\<close>

definition is_slave :: "string \<Rightarrow> slave_type option" where
  "is_slave name =
     (case strrchr name CHR ''.'' of
        None \<Rightarrow> None
      | Some dot \<Rightarrow>
          let psz_ext = tl dot; i_extlen = length psz_ext
          in if i_extlen = 0 then None
             else map_option fst
                    (find (\<lambda>(i_type, ppsz_exts).
                             list_ex (\<lambda>slave_ext. strncasecmp_is0 psz_ext slave_ext i_extlen) ppsz_exts)
                       p_slave_list))"

text \<open>
  \<open>has_ext\<close>: each comma-separated piece of \<open>psz_exts\<close> is compared with the extension of
  the name when both have the same length; the loop ends at the end of the list, and
  also at a piece that starts at the very end of it.
\<close>

function has_ext_loop :: "string \<Rightarrow> string \<Rightarrow> bool" where
  "has_ext_loop type ext =
     (if type = [] then False
      else if length (takeWhile (\<lambda>c. c \<noteq> CHR '','') type) = length ext
              \<and> strncasecmp_is0 ext type (length ext)
      then True
      else case dropWhile (\<lambda>c. c \<noteq> CHR '','') type of
             [] \<Rightarrow> False
           | _ # next_type \<Rightarrow> has_ext_loop next_type ext)"
  by pat_completeness auto
termination
proof (relation "measure (\<lambda>(t, e). length t)")
  show "wf (measure (\<lambda>(t, e). length t))" by simp
next
  fix type ext :: string and x21 :: char and next_type :: string
  assume "dropWhile (\<lambda>c. c \<noteq> CHR '','') type = x21 # next_type"
  hence "length next_type < length type"
    using length_dropWhile_le [of "\<lambda>c. c \<noteq> CHR '',''" type] by simp
  thus "((next_type, ext), (type, ext)) \<in> measure (\<lambda>(t, e). length t)" by simp
qed

declare has_ext_loop.simps [simp del]

definition has_ext :: "string option \<Rightarrow> string \<Rightarrow> bool" where
  "has_ext psz_exts psz_uri_arg =
     (case psz_exts of
        None \<Rightarrow> False
      | Some exts \<Rightarrow>
          (case strrchr psz_uri_arg CHR ''.'' of
             None \<Rightarrow> False
           | Some dot \<Rightarrow> has_ext_loop exts (tl dot)))"

section \<open>directory.c: items, comparison functions and priorities\<close>

text \<open>
  The enumeration of the item types comes from a header that is not among the sources;
  the code only tells directories from everything else.
\<close>

datatype item_type =
    ITEM_TYPE_UNKNOWN
  | ITEM_TYPE_FILE
  | ITEM_TYPE_DIRECTORY
  | ITEM_TYPE_DISC
  | ITEM_TYPE_CARD
  | ITEM_TYPE_STREAM
  | ITEM_TYPE_PLAYLIST
  | ITEM_TYPE_NODE

text \<open>
  An item as \<open>stream_ReadDir\<close> hands it over. A NULL name is modelled by the empty name:
  the loop of \<open>Demux\<close> computes the length 0 for both and passes the item over. The slaves
  attached to an item are kept as the indices of the slaves in the list of \<open>Demux\<close>.
\<close>

record input_item_t =
  psz_name :: string
  psz_uri :: string
  i_type :: item_type
  pp_slaves :: "nat list"

record input_item_slave =
  slave_psz_uri :: string
  slave_i_type :: slave_type
  slave_i_priority :: int

definition compar_type :: "input_item_t \<Rightarrow> input_item_t \<Rightarrow> int" where
  "compar_type p1 p2 =
     (if i_type p1 \<noteq> i_type p2
      then (if i_type p1 = ITEM_TYPE_DIRECTORY then - 1
            else if i_type p2 = ITEM_TYPE_DIRECTORY then 1
            else 0)
      else 0)"

text \<open>\<open>compar_collate\<close>, with the comparison of the locale as a parameter.\<close>

definition compar_collate :: "(string \<Rightarrow> string \<Rightarrow> int) \<Rightarrow> input_item_t \<Rightarrow> input_item_t \<Rightarrow> int" where
  "compar_collate strcoll p1 p2 =
     (let i_ret = compar_type p1 p2
      in if i_ret \<noteq> 0 then i_ret else strcoll (psz_name p1) (psz_name p2))"

text \<open>
  Modelled from the spec: \<open>strverscmp\<close>, which is not among the sources. The spec calls it
  a version-number-aware comparison in which numeric runs are compared by value and not
  lexicographically. A name is cut into its runs of digits, each taken as the number it
  writes, and its other bytes; two names are compared piece by piece, numbers by value,
  bytes by code, and a number against a byte as a digit against that byte.
\<close>

datatype vpiece = VNum nat | VByte char

definition digits_val :: "string \<Rightarrow> nat" where
  "digits_val ds = foldl (\<lambda>a c. 10 * a + (of_char c - 48)) 0 ds"

function vpieces :: "string \<Rightarrow> vpiece list" where
  "vpieces [] = []"
| "vpieces (c # cs) =
     (if isdigit c
      then VNum (digits_val (takeWhile isdigit (c # cs))) # vpieces (dropWhile isdigit cs)
      else VByte c # vpieces cs)"
  by pat_completeness auto
termination
  by (relation "measure length") (auto simp: length_dropWhile_le less_Suc_eq_le)

fun vpiece_cmp :: "vpiece \<Rightarrow> vpiece \<Rightarrow> int" where
  "vpiece_cmp (VNum a) (VNum b) = (if a < b then - 1 else if b < a then 1 else 0)"
| "vpiece_cmp (VByte a) (VByte b) =
     (if (of_char a :: nat) < of_char b then - 1
      else if (of_char b :: nat) < of_char a then 1
      else 0)"
| "vpiece_cmp (VNum a) (VByte b) = (if (of_char b :: nat) < 48 then 1 else - 1)"
| "vpiece_cmp (VByte a) (VNum b) = (if (of_char a :: nat) < 48 then - 1 else 1)"

fun vpieces_cmp :: "vpiece list \<Rightarrow> vpiece list \<Rightarrow> int" where
  "vpieces_cmp [] [] = 0"
| "vpieces_cmp [] (y # ys) = - 1"
| "vpieces_cmp (x # xs) [] = 1"
| "vpieces_cmp (x # xs) (y # ys) =
     (if vpiece_cmp x y \<noteq> 0 then vpiece_cmp x y else vpieces_cmp xs ys)"

definition strverscmp :: "string \<Rightarrow> string \<Rightarrow> int" where
  "strverscmp a b = vpieces_cmp (vpieces a) (vpieces b)"

definition compar_version :: "input_item_t \<Rightarrow> input_item_t \<Rightarrow> int" where
  "compar_version p1 p2 =
     (let i_ret = compar_type p1 p2
      in if i_ret \<noteq> 0 then i_ret else strverscmp (psz_name p1) (psz_name p2))"

text \<open>
  \<open>name_from_uri\<close>: what follows the last slash, cut at its last dot, without the blanks
  at either end, in lower case. (On an empty name the loop that removes the trailing
  blanks looks at the byte before the name; it writes nothing there.)
\<close>

definition name_from_uri :: "string \<Rightarrow> string" where
  "name_from_uri uri =
     (let psz_ptr = (case strrchr uri CHR ''/'' of None \<Rightarrow> uri | Some psz_slash \<Rightarrow> tl psz_slash);
          no_ext = (case strrchr psz_ptr CHR ''.'' of
                      None \<Rightarrow> psz_ptr
                    | Some psz_dot \<Rightarrow> take (length psz_ptr - length psz_dot) psz_ptr);
          no_lead = dropWhile (\<lambda>c. c = CHR '' '') no_ext;
          no_trail = rev (dropWhile (\<lambda>c. c = CHR '' '') (rev no_lead))
      in map tolower no_trail)"

text \<open>
  \<open>calculate_slave_priority\<close>, on the URIs of the item and of the slave: the enumerator
  that is stored in the slave.
\<close>

definition calculate_slave_priority :: "string \<Rightarrow> string \<Rightarrow> slave_priority" where
  "calculate_slave_priority item_uri slave_uri =
     (let psz_item_name = name_from_uri item_uri;
          psz_slave_name = name_from_uri slave_uri
      in if psz_item_name = psz_slave_name then SLAVE_PRIORITY_MATCH_ALL
         else case strstr psz_slave_name psz_item_name of
                Some psz_sub \<Rightarrow>
                  if length (drop (length psz_item_name) psz_sub) = 0
                  then SLAVE_PRIORITY_MATCH_RIGHT
                  else SLAVE_PRIORITY_MATCH_LEFT
              | None \<Rightarrow> SLAVE_PRIORITY_MATCH_NONE)"


section \<open>directory.c: \<open>attach_slaves\<close>\<close>

text \<open>
  The slaves collected by \<open>Demux\<close> are a list of pointers; the model keeps the objects
  in a list and turns one into \<open>None\<close> when \<open>input_item_slave_Delete\<close> frees it. The
  inner loop computes the priority of each slave for the item (which reads the URI of
  the slave and stores the priority in it), and either attaches the slave to the item or
  deletes it. A slave deleted for one item is still in the list for the next.
\<close>

type_synonym slave_store = "input_item_slave option list"

fun attach_slaves_inner ::
  "prio_val \<Rightarrow> int \<Rightarrow> nat list \<Rightarrow> input_item_t \<Rightarrow> slave_store \<Rightarrow>
   input_item_t \<times> slave_store \<times> fault option" where
  "attach_slaves_inner pv i_fuzzy [] p_item st = (p_item, st, None)"
| "attach_slaves_inner pv i_fuzzy (j # js) p_item st =
     (case st ! j of
        None \<Rightarrow> (p_item, st, Some UseAfterFree)
      | Some p_slave \<Rightarrow>
          let prio = uint8 (pv (calculate_slave_priority (psz_uri p_item) (slave_psz_uri p_slave)))
          in if prio \<ge> i_fuzzy
             then attach_slaves_inner pv i_fuzzy js
                    (p_item\<lparr>pp_slaves := pp_slaves p_item @ [j]\<rparr>)
                    (st[j := Some (p_slave\<lparr>slave_i_priority := prio\<rparr>)])
             else attach_slaves_inner pv i_fuzzy js p_item (st[j := None]))"

fun attach_slaves_outer ::
  "prio_val \<Rightarrow> int \<Rightarrow> input_item_t list \<Rightarrow> slave_store \<Rightarrow>
   input_item_t list \<times> slave_store \<times> fault option" where
  "attach_slaves_outer pv i_fuzzy [] st = ([], st, None)"
| "attach_slaves_outer pv i_fuzzy (p_item # items) st =
     (case attach_slaves_inner pv i_fuzzy [0..<length st] p_item st of
        (p_item', st', Some f) \<Rightarrow> (p_item' # items, st', Some f)
      | (p_item', st', None) \<Rightarrow>
          (case attach_slaves_outer pv i_fuzzy items st' of
             (items', st'', f) \<Rightarrow> (p_item' # items', st'', f)))"

definition attach_slaves ::
  "prio_val \<Rightarrow> int \<Rightarrow> input_item_t list \<Rightarrow> slave_store \<Rightarrow>
   input_item_t list \<times> slave_store \<times> fault option" where
  "attach_slaves pv fuzzy children p_slaves =
     (let i_fuzzy = int_of_int64 fuzzy
      in if i_fuzzy = 0 then (children, p_slaves, None)
         else attach_slaves_outer pv i_fuzzy children p_slaves)"

section \<open>directory.c: \<open>Demux\<close>\<close>

record demux_sys_t =
  b_dir_sorted :: bool
  b_dir_can_loop :: bool

text \<open>The configuration variables that \<open>Demux\<close> and \<open>attach_slaves\<close> inherit.\<close>

record demux_vars =
  show_hiddenfiles :: bool
  ignore_filetypes :: "string option"
  sub_autodetect_fuzzy :: int
  directory_sort :: "string option"

text \<open>
  One turn of the reading loop, on the item that \<open>stream_ReadDir\<close> returned: the children
  of the node and the slaves collected so far, as the turn leaves them.
\<close>

definition demux_entry ::
  "prio_val \<Rightarrow> demux_vars \<Rightarrow> input_item_t \<Rightarrow> input_item_t list \<times> slave_store \<Rightarrow>
   input_item_t list \<times> slave_store" where
  "demux_entry pv vars p_item acc =
     (case acc of (children, p_slaves) \<Rightarrow>
        if length (psz_name p_item) = 0 \<or> psz_name p_item = ''.'' \<or> psz_name p_item = ''..''
           \<or> (\<not> show_hiddenfiles vars \<and> hd (psz_name p_item) = CHR ''.'')
        then (children, p_slaves)
        else (case is_slave (psz_name p_item) of
                Some i_slave_type \<Rightarrow>
                  (children,
                   p_slaves @ [Some \<lparr>slave_psz_uri = psz_uri p_item, slave_i_type = i_slave_type,
                                      slave_i_priority = uint8 (pv SLAVE_PRIORITY_NONE)\<rparr>])
              | None \<Rightarrow>
                  if has_ext (ignore_filetypes vars) (psz_name p_item) then (children, p_slaves)
                  else (children @ [p_item], p_slaves)))"

text \<open>
  The reading loop over the items that the stream still holds; the count is the number
  of items that \<open>stream_ReadDir\<close> has returned.
\<close>

fun demux_read ::
  "prio_val \<Rightarrow> demux_vars \<Rightarrow> input_item_t list \<Rightarrow> (input_item_t list \<times> slave_store) \<times> nat \<Rightarrow>
   (input_item_t list \<times> slave_store) \<times> nat" where
  "demux_read pv vars [] acc = acc"
| "demux_read pv vars (p_item # stream) acc =
     demux_read pv vars stream (demux_entry pv vars p_item (fst acc), Suc (snd acc))"

text \<open>
  Modelled from the spec: \<open>input_item_node_Sort\<close>, which is not among the sources. The
  spec has the children ordered by the comparison function that was selected; the model
  is the insertion sort that keeps the items that compare equal in their order.
\<close>

fun node_insert ::
  "(input_item_t \<Rightarrow> input_item_t \<Rightarrow> int) \<Rightarrow> input_item_t \<Rightarrow> input_item_t list \<Rightarrow> input_item_t list" where
  "node_insert compar x [] = [x]"
| "node_insert compar x (y # ys) =
     (if compar x y \<le> 0 then x # y # ys else y # node_insert compar x ys)"

fun input_item_node_Sort ::
  "(input_item_t \<Rightarrow> input_item_t \<Rightarrow> int) \<Rightarrow> input_item_t list \<Rightarrow> input_item_t list" where
  "input_item_node_Sort compar [] = []"
| "input_item_node_Sort compar (x # xs) = node_insert compar x (input_item_node_Sort compar xs)"

text \<open>The end of \<open>Demux\<close>: the choice of the comparison function, and the sort.\<close>

definition demux_sort ::
  "(string \<Rightarrow> string \<Rightarrow> int) \<Rightarrow> demux_sys_t \<Rightarrow> demux_vars \<Rightarrow> input_item_t list \<Rightarrow> input_item_t list" where
  "demux_sort strcoll p_sys vars children =
     (if \<not> b_dir_sorted p_sys
      then (case directory_sort vars of
              None \<Rightarrow> children
            | Some psz_sort \<Rightarrow>
                if strcasecmp_is0 psz_sort ''version''
                then input_item_node_Sort compar_version children
                else if \<not> strcasecmp_is0 psz_sort ''none''
                then input_item_node_Sort (compar_collate strcoll) children
                else children)
      else children)"

text \<open>
  What a call of \<open>Demux\<close> leaves behind: the return value (none when a fault stopped the
  call), the children of the node in their final order, the slaves, the number of items
  read from the stream, and the fault, if any.
\<close>

record demux_out =
  demux_ret :: "retcode option"
  node_children :: "input_item_t list"
  node_slaves :: slave_store
  items_read :: nat
  demux_stopped :: "fault option"

definition Demux ::
  "(string \<Rightarrow> string \<Rightarrow> int) \<Rightarrow> prio_val \<Rightarrow> demux_sys_t \<Rightarrow> demux_vars \<Rightarrow> input_item_t list \<Rightarrow> demux_out" where
  "Demux strcoll pv p_sys vars stream =
     (case demux_read pv vars stream (([], []), 0) of
        ((children, p_slaves), n) \<Rightarrow>
          (case attach_slaves pv (sub_autodetect_fuzzy vars) children p_slaves of
             (children', p_slaves', Some f) \<Rightarrow>
               \<lparr>demux_ret = None, node_children = children', node_slaves = p_slaves',
                items_read = n, demux_stopped = Some f\<rparr>
           | (children', p_slaves', None) \<Rightarrow>
               \<lparr>demux_ret = Some VLC_SUCCESS,
                node_children = demux_sort strcoll p_sys vars children',
                node_slaves = p_slaves', items_read = n, demux_stopped = None\<rparr>))"


section \<open>Predicates used in the statements\<close>

text \<open>
  A normalised name: digits, lower-case letters and blanks only, every blank followed
  by a digit or a letter (so no two blanks in a row and none at the end), and no blank
  at the start.
\<close>

definition lowalnum :: "char \<Rightarrow> bool" where
  "lowalnum c = (isdigit c \<or> islower c)"

fun single_spaced :: "string \<Rightarrow> bool" where
  "single_spaced [] = True"
| "single_spaced (c # cs) =
     (if c = CHR '' '' then cs \<noteq> [] \<and> lowalnum (hd cs) \<and> single_spaced cs
      else lowalnum c \<and> single_spaced cs)"

definition normalized :: "string \<Rightarrow> bool" where
  "normalized s = (single_spaced s \<and> (s = [] \<or> hd s \<noteq> CHR '' ''))"

text \<open>Whether the text after the last dot of a path is, ignoring case, the given extension.\<close>

definition path_ext_is :: "string \<Rightarrow> string \<Rightarrow> bool" where
  "path_ext_is path ext =
     (case strrchr path CHR ''.'' of None \<Rightarrow> False | Some dot \<Rightarrow> strcasecmp_is0 (tl dot) ext)"

text \<open>
  Numbers for the enumerators, in the order that the spec gives them, for the examples
  that need numbers.
\<close>

definition vlc_prio_val :: prio_val where
  "vlc_prio_val p =
     (case p of
        SLAVE_PRIORITY_NONE \<Rightarrow> 0
      | SLAVE_PRIORITY_MATCH_NONE \<Rightarrow> 1
      | SLAVE_PRIORITY_MATCH_RIGHT \<Rightarrow> 2
      | SLAVE_PRIORITY_MATCH_LEFT \<Rightarrow> 3
      | SLAVE_PRIORITY_MATCH_ALL \<Rightarrow> 4)"

text \<open>The number of slaves attached to the items of a list.\<close>

definition attached_count :: "input_item_t list \<Rightarrow> nat" where
  "attached_count items = sum_list (map (\<lambda>p_item. length (pp_slaves p_item)) items)"

text \<open>
  Two relations for comparing two runs of \<open>attach_slaves\<close>: the second store has freed
  whatever the first has, and holds the same URIs where it has not; the second item has
  the URI of the first and no more slaves than it.
\<close>

definition store_sim :: "slave_store \<Rightarrow> slave_store \<Rightarrow> bool" where
  "store_sim st1 st2 =
     (length st1 = length st2 \<and>
      (\<forall>j < length st2. \<forall>s2. st2 ! j = Some s2 \<longrightarrow>
          (\<exists>s1. st1 ! j = Some s1 \<and> slave_psz_uri s1 = slave_psz_uri s2)))"

definition item_sim :: "input_item_t \<Rightarrow> input_item_t \<Rightarrow> bool" where
  "item_sim a b = (psz_uri a = psz_uri b \<and> length (pp_slaves b) \<le> length (pp_slaves a))"

text \<open>A directory \<open>/d/\<close> for the examples; every path in it is a regular file.\<close>

definition example_fs :: "string list \<Rightarrow> fs_env" where
  "example_fs names =
     \<lparr>vlc_uri2path = (\<lambda>uri. Some uri),
      vlc_opendir = (\<lambda>dir. if dir = ''/d/'' then Some names else None),
      stat_isreg = (\<lambda>path. True)\<rparr>"

definition example_item :: "string \<Rightarrow> item_type \<Rightarrow> input_item_t" where
  "example_item name t = \<lparr>psz_name = name, psz_uri = ''file:///d/'' @ name, i_type = t, pp_slaves = []\<rparr>"

text \<open>
  The two steps of \<open>name_from_uri\<close> named for the statements: what follows the last slash
  of a URI, and a name without the blanks at its ends.
\<close>

definition uri_base :: "string \<Rightarrow> string" where
  "uri_base uri = (case strrchr uri CHR ''/'' of None \<Rightarrow> uri | Some psz_slash \<Rightarrow> tl psz_slash)"

definition strip_blanks :: "string \<Rightarrow> string" where
  "strip_blanks z = rev (dropWhile (\<lambda>c. c = CHR '' '') (rev (dropWhile (\<lambda>c. c = CHR '' '') z)))"

text \<open>The order that \<open>compar_version\<close> defines.\<close>

definition version_le :: "input_item_t \<Rightarrow> input_item_t \<Rightarrow> bool" where
  "version_le a b = (compar_version a b \<le> 0)"

section \<open>Characters\<close>

lemma lowalnum_isalnum: "lowalnum c \<Longrightarrow> isalnum c"
  by (auto simp add: lowalnum_def isalnum_def)

lemma tolower_lowalnum: "lowalnum c \<Longrightarrow> tolower c = c"
  by (auto simp: lowalnum_def tolower_def isupper_def isdigit_def islower_def)

lemma lowalnum_tolower: "isalnum c \<Longrightarrow> lowalnum (tolower c)"
  by (auto simp: lowalnum_def tolower_def isupper_def isdigit_def islower_def isalnum_def)

lemma space_not_alnum: "\<not> isalnum CHR '' ''"
  by (simp add: isalnum_def isupper_def isdigit_def islower_def)

lemma whiteonly_iff: "whiteonly s \<longleftrightarrow> (\<forall>c \<in> set s. \<not> isalnum c)"
  by (induction s) auto

lemma strrchr_None: "c \<notin> set s \<Longrightarrow> strrchr s c = None"
  by (induction s) auto

section \<open>The normaliser \<open>strcpy_trim\<close>\<close>

lemma single_spaced_words: "\<forall>c \<in> set w. lowalnum c \<Longrightarrow> single_spaced w"
  by (induction w) (auto dest: lowalnum_isalnum simp: space_not_alnum)

lemma single_spaced_append_word:
  "\<forall>c \<in> set w. lowalnum c \<Longrightarrow> single_spaced r \<Longrightarrow> r \<noteq> [] \<Longrightarrow> lowalnum (hd r) \<Longrightarrow>
   single_spaced (w @ CHR '' '' # r)"
  by (induction w) (auto dest: lowalnum_isalnum simp: space_not_alnum)

lemma single_spaced_chars: "single_spaced s \<Longrightarrow> c \<in> set s \<Longrightarrow> c = CHR '' '' \<or> lowalnum c"
  by (induction s) (auto split: if_splits)

lemma single_spaced_suffix: "single_spaced (xs @ ys) \<Longrightarrow> single_spaced ys"
  by (induction xs) (auto split: if_splits)

lemma trim_loop_unfold:
  "strcpy_trim_loop s =
     (if dropWhile isalnum s = [] then map tolower (takeWhile isalnum s)
      else if dropWhile (\<lambda>c. \<not> isalnum c) (dropWhile isalnum s) = []
           then map tolower (takeWhile isalnum s)
           else map tolower (takeWhile isalnum s) @ CHR '' '' #
                strcpy_trim_loop (dropWhile (\<lambda>c. \<not> isalnum c) (dropWhile isalnum s)))"
  by (subst strcpy_trim_loop.simps) (simp add: Let_def)

lemma trim_loop_Nil: "strcpy_trim_loop [] = []"
  by (subst trim_loop_unfold) simp

lemma trim_loop_normalized:
  "s = [] \<or> isalnum (hd s) \<Longrightarrow>
   single_spaced (strcpy_trim_loop s) \<and>
   (s \<noteq> [] \<longrightarrow> strcpy_trim_loop s \<noteq> [] \<and> lowalnum (hd (strcpy_trim_loop s)))"
proof (induction s rule: strcpy_trim_loop.induct)
  case (1 s)
  let ?w = "map tolower (takeWhile isalnum s)"
  let ?s1 = "dropWhile isalnum s"
  let ?s2 = "dropWhile (\<lambda>c. \<not> isalnum c) ?s1"
  have w: "\<forall>c \<in> set ?w. lowalnum c"
    by (auto dest: set_takeWhileD lowalnum_tolower)
  have hdw: "s \<noteq> [] \<longrightarrow> ?w \<noteq> [] \<and> lowalnum (hd ?w)"
    using "1.prems" by (cases s) (auto simp: lowalnum_tolower)
  show ?case
  proof (cases "?s1 = [] \<or> ?s2 = []")
    case True
    hence "strcpy_trim_loop s = ?w" by (subst trim_loop_unfold) auto
    thus ?thesis using w hdw by (simp add: single_spaced_words)
  next
    case False
    hence eq: "strcpy_trim_loop s = ?w @ CHR '' '' # strcpy_trim_loop ?s2"
      by (subst trim_loop_unfold) auto
    have "isalnum (hd ?s2)" using False hd_dropWhile [of "\<lambda>c. \<not> isalnum c" ?s1] by auto
    with False 1 have ih: "single_spaced (strcpy_trim_loop ?s2)"
      "strcpy_trim_loop ?s2 \<noteq> []" "lowalnum (hd (strcpy_trim_loop ?s2))"
      by auto
    have "single_spaced (strcpy_trim_loop s)"
      unfolding eq using w ih by (intro single_spaced_append_word)
    moreover have "s \<noteq> [] \<longrightarrow> strcpy_trim_loop s \<noteq> [] \<and> lowalnum (hd (strcpy_trim_loop s))"
      unfolding eq using hdw by (auto simp: hd_append)
    ultimately show ?thesis by simp
  qed
qed

lemma strcpy_trim_normalized: "normalized (strcpy_trim x)"
proof -
  let ?s = "dropWhile (\<lambda>c. \<not> isalnum c) x"
  have "?s = [] \<or> isalnum (hd ?s)" using hd_dropWhile [of "\<lambda>c. \<not> isalnum c" x] by auto
  from trim_loop_normalized [OF this]
  have ss: "single_spaced (strcpy_trim_loop ?s)"
    and h: "?s \<noteq> [] \<longrightarrow> lowalnum (hd (strcpy_trim_loop ?s))" by simp_all
  have "strcpy_trim_loop ?s = [] \<or> hd (strcpy_trim_loop ?s) \<noteq> CHR '' ''"
  proof (cases "?s = []")
    case True
    thus ?thesis using trim_loop_Nil by (simp only: True simp_thms)
  next
    case False
    with h have "isalnum (hd (strcpy_trim_loop ?s))" by (simp add: lowalnum_isalnum)
    thus ?thesis using space_not_alnum by auto
  qed
  with ss show ?thesis by (simp add: normalized_def strcpy_trim_def)
qed

lemma trim_loop_fixed: "single_spaced s \<Longrightarrow> strcpy_trim_loop s = s"
proof (induction s rule: strcpy_trim_loop.induct)
  case (1 s)
  let ?t = "takeWhile isalnum s"
  let ?s1 = "dropWhile isalnum s"
  let ?s2 = "dropWhile (\<lambda>c. \<not> isalnum c) ?s1"
  have split: "s = ?t @ ?s1" by simp
  have "\<forall>c \<in> set ?t. lowalnum c"
  proof
    fix c assume "c \<in> set ?t"
    hence "c \<in> set s" "isalnum c" by (auto dest: set_takeWhileD)
    thus "lowalnum c" using single_spaced_chars [OF "1.prems", of c] space_not_alnum by auto
  qed
  hence w: "map tolower ?t = ?t" by (simp add: map_idI tolower_lowalnum)
  show ?case
  proof (cases "?s1 = []")
    case True
    hence "strcpy_trim_loop s = ?t" using w by (subst trim_loop_unfold) simp
    thus ?thesis using True split by (metis append_Nil2)
  next
    case False
    then obtain c cs where c: "?s1 = c # cs" by (cases ?s1) auto
    hence nc: "\<not> isalnum c" by (rule dropWhile_eq_Cons_conv [THEN iffD1, THEN conjunct2])
    have ss1: "single_spaced ?s1" using "1.prems" single_spaced_suffix split by metis
    hence sp: "c = CHR '' ''" using c nc by (auto dest: lowalnum_isalnum split: if_splits)
    with ss1 c have cs: "cs \<noteq> []" "lowalnum (hd cs)" "single_spaced cs" by auto
    hence s2: "?s2 = cs" using c nc by (cases cs) (auto dest: lowalnum_isalnum)
    have "strcpy_trim_loop cs = cs" using "1.IH" [of "map tolower ?t" ?s1 ?s2] False s2 cs by simp
    hence "strcpy_trim_loop s = ?t @ CHR '' '' # cs"
      using False s2 cs w by (subst trim_loop_unfold) simp
    thus ?thesis using split c sp by metis
  qed
qed

lemma strcpy_trim_fixed: "normalized s \<Longrightarrow> strcpy_trim s = s"
proof -
  assume n: "normalized s"
  hence "dropWhile (\<lambda>c. \<not> isalnum c) s = s"
    by (cases s) (auto simp: normalized_def dest: lowalnum_isalnum split: if_splits)
  thus ?thesis using n by (simp add: strcpy_trim_def normalized_def trim_loop_fixed)
qed

lemma normalized_no_dot: "single_spaced s \<Longrightarrow> CHR ''.'' \<notin> set s"
proof
  assume s: "single_spaced s" and d: "CHR ''.'' \<in> set s"
  have "\<not> lowalnum CHR ''.''" by code_simp
  thus False using single_spaced_chars [OF s d] by simp
qed

lemma normalizer_idempotent:
  "strcpy_trim (strcpy_strip_ext (strcpy_trim (strcpy_strip_ext x))) = strcpy_trim (strcpy_strip_ext x)"
proof -
  let ?n = "strcpy_trim (strcpy_strip_ext x)"
  have n: "normalized ?n" by (rule strcpy_trim_normalized)
  hence "CHR ''.'' \<notin> set ?n" by (simp add: normalized_def normalized_no_dot)
  hence "strcpy_strip_ext ?n = ?n" by (simp add: strcpy_strip_ext_def strrchr_None)
  thus ?thesis using strcpy_trim_fixed [OF n] by simp
qed

text \<open>
  C7. The normaliser is idempotent: normalising a normalised name gives the same name,
  for \<open>strcpy_trim\<close> alone and for \<open>strcpy_trim\<close> after \<open>strcpy_strip_ext\<close>. Every name
  it returns is made of digits and lower-case ASCII letters separated by single blanks,
  with no blank at either end, and every such name is a fixed point of the normaliser.
\<close>

theorem strcpy_trim_idempotent:
  "strcpy_trim (strcpy_trim x) = strcpy_trim x \<and>
   strcpy_trim (strcpy_strip_ext (strcpy_trim (strcpy_strip_ext x))) = strcpy_trim (strcpy_strip_ext x) \<and>
   normalized (strcpy_trim x) \<and>
   (normalized s \<longrightarrow> strcpy_trim s = s)"
  using strcpy_trim_fixed strcpy_trim_normalized normalizer_idempotent by blast

theorem strcpy_trim_idempotent_witness:
  "strcpy_trim (strcpy_trim ''  The.Movie__(2009) - CD1 '') = strcpy_trim ''  The.Movie__(2009) - CD1 '' \<and>
   strcpy_trim ''  The.Movie__(2009) - CD1 '' = ''the movie 2009 cd1'' \<and>
   normalized ''the movie 2009 cd1'' \<and> strcpy_trim ''the movie 2009 cd1'' = ''the movie 2009 cd1''"
proof -
  have n: "normalized ''the movie 2009 cd1''" by code_simp
  have e: "strcpy_trim ''  The.Movie__(2009) - CD1 '' = ''the movie 2009 cd1''" by code_simp
  from strcpy_trim_idempotent [where x = "''  The.Movie__(2009) - CD1 ''" and s = "''the movie 2009 cd1''"] n e
  show ?thesis by simp
qed

section \<open>The extension classifier\<close>

text \<open>
  C3. A file name is a companion exactly when the text after its last dot is, ignoring
  case, one of the listed extensions; an extension that is only the beginning of a
  listed one, such as \<open>s\<close> for \<open>sub\<close>, is not a companion. \<open>is_slave\<close> does not keep to
  this: it compares over the length of the extension only, so \<open>movie.s\<close> is taken for a
  subtitle, while \<open>subtitles_Filter\<close>, which compares the whole strings, refuses it.
\<close>

theorem is_slave_accepts_prefix_extension:
  "is_slave ''movie.s'' = Some SLAVE_TYPE_SPU \<and> \<not> subtitles_Filter ''movie.s''"
  by code_simp

section \<open>The pass over the collected list\<close>

lemma resolve_one_fields:
  "psz_path (fst (resolve_one pv subs s)) = psz_path s \<and>
   i_priority (fst (resolve_one pv subs s)) = i_priority s \<and>
   (b_rejected s \<longrightarrow> b_rejected (fst (resolve_one pv subs s)))"
  by (simp add: resolve_one_def split: option.splits)

lemma resolve_one_other:
  "psz_path s = Some p \<Longrightarrow> \<not> path_ext_is p ''sub'' \<Longrightarrow> \<not> path_ext_is p ''cdg'' \<Longrightarrow>
   fst (resolve_one pv subs s) = s"
  by (auto simp add: resolve_one_def path_ext_is_def split: option.splits)

lemma resolve_loop_frame:
  "length (fst (resolve_loop pv i subs)) = length subs \<and>
   (\<forall>k < length subs.
      psz_path (fst (resolve_loop pv i subs) ! k) = psz_path (subs ! k) \<and>
      i_priority (fst (resolve_loop pv i subs) ! k) = i_priority (subs ! k) \<and>
      (b_rejected (subs ! k) \<longrightarrow> b_rejected (fst (resolve_loop pv i subs) ! k)) \<and>
      (\<forall>p. psz_path (subs ! k) = Some p \<longrightarrow> \<not> path_ext_is p ''sub'' \<longrightarrow> \<not> path_ext_is p ''cdg'' \<longrightarrow>
           b_rejected (fst (resolve_loop pv i subs) ! k) = b_rejected (subs ! k)))"
proof (induction pv i subs rule: resolve_loop.induct)
  case (1 pv i subs)
  let ?s' = "fst (resolve_one pv subs (subs ! i))"
  let ?subs' = "subs[i := ?s']"
  have upd: "\<forall>k < length subs.
      psz_path (?subs' ! k) = psz_path (subs ! k) \<and>
      i_priority (?subs' ! k) = i_priority (subs ! k) \<and>
      (b_rejected (subs ! k) \<longrightarrow> b_rejected (?subs' ! k)) \<and>
      (\<forall>p. psz_path (subs ! k) = Some p \<longrightarrow> \<not> path_ext_is p ''sub'' \<longrightarrow> \<not> path_ext_is p ''cdg'' \<longrightarrow>
           b_rejected (?subs' ! k) = b_rejected (subs ! k))"
  proof (intro allI impI)
    fix k assume k: "k < length subs"
    show "psz_path (?subs' ! k) = psz_path (subs ! k) \<and>
      i_priority (?subs' ! k) = i_priority (subs ! k) \<and>
      (b_rejected (subs ! k) \<longrightarrow> b_rejected (?subs' ! k)) \<and>
      (\<forall>p. psz_path (subs ! k) = Some p \<longrightarrow> \<not> path_ext_is p ''sub'' \<longrightarrow> \<not> path_ext_is p ''cdg'' \<longrightarrow>
           b_rejected (?subs' ! k) = b_rejected (subs ! k))"
    proof (cases "k = i")
      case True
      hence "?subs' ! k = ?s'" using k by simp
      thus ?thesis
        using resolve_one_fields [of pv subs "subs ! i"] resolve_one_other [of "subs ! i" _ pv subs] True
        by auto
    next
      case False
      thus ?thesis by simp
    qed
  qed
  show ?case
  proof (cases "i < length subs")
    case False
    thus ?thesis by (subst (1 2 3 4 5) resolve_loop.simps) simp
  next
    case True
    show ?thesis
    proof (cases "snd (resolve_one pv subs (subs ! i)) = None")
      case False
      with True have "resolve_loop pv i subs = (?subs', snd (resolve_one pv subs (subs ! i)))"
        by (subst resolve_loop.simps) auto
      thus ?thesis using upd by simp
    next
      case n: True
      with True have eq: "resolve_loop pv i subs = resolve_loop pv (Suc i) ?subs'"
        by (subst resolve_loop.simps) simp
      from "1.IH" [OF True n] upd show ?thesis unfolding eq by simp
    qed
  qed
qed

text \<open>
  C10. The pass over the collected list only ever sets the rejected flag. Whatever the
  list, and whether the pass runs to its end or not, the list keeps its length, every
  subtitle keeps its path and its priority (a subtitle has no other field: the kind of
  the companion is not recorded in it), a flag that was set stays set, and a subtitle
  whose path has an extension other than \<open>sub\<close> and \<open>cdg\<close>, or no extension at all,
  keeps its flag as it was.
\<close>

theorem resolve_only_sets_rejected:
  "length (fst (subtitles_resolve pv subs)) = length subs \<and>
   (\<forall>k < length subs.
      psz_path (fst (subtitles_resolve pv subs) ! k) = psz_path (subs ! k) \<and>
      i_priority (fst (subtitles_resolve pv subs) ! k) = i_priority (subs ! k) \<and>
      (b_rejected (subs ! k) \<longrightarrow> b_rejected (fst (subtitles_resolve pv subs) ! k)) \<and>
      (\<forall>p. psz_path (subs ! k) = Some p \<longrightarrow> \<not> path_ext_is p ''sub'' \<longrightarrow> \<not> path_ext_is p ''cdg'' \<longrightarrow>
           b_rejected (fst (subtitles_resolve pv subs) ! k) = b_rejected (subs ! k)))"
  unfolding subtitles_resolve_def by (rule resolve_loop_frame)


theorem resolve_only_sets_rejected_witness:
  "(0::nat) < length [\<lparr>psz_path = Some ''/d/movie.srt'', i_priority = 3, b_rejected = False\<rparr>,
                     \<lparr>psz_path = Some ''/d/song.cdg'', i_priority = 3, b_rejected = False\<rparr>] \<and>
   \<not> path_ext_is ''/d/movie.srt'' ''sub'' \<and> \<not> path_ext_is ''/d/movie.srt'' ''cdg'' \<and>
   fst (subtitles_resolve vlc_prio_val
     [\<lparr>psz_path = Some ''/d/movie.srt'', i_priority = 3, b_rejected = False\<rparr>,
      \<lparr>psz_path = Some ''/d/song.cdg'', i_priority = 3, b_rejected = False\<rparr>]) =
     [\<lparr>psz_path = Some ''/d/movie.srt'', i_priority = 3, b_rejected = False\<rparr>,
      \<lparr>psz_path = Some ''/d/song.cdg'', i_priority = 3, b_rejected = True\<rparr>]"
proof -
  let ?subs = "[\<lparr>psz_path = Some ''/d/movie.srt'', i_priority = 3, b_rejected = False\<rparr>,
                \<lparr>psz_path = Some ''/d/song.cdg'', i_priority = 3, b_rejected = False\<rparr>]"
  have e: "\<not> path_ext_is ''/d/movie.srt'' ''sub''" "\<not> path_ext_is ''/d/movie.srt'' ''cdg''"
    by code_simp+
  have r: "fst (subtitles_resolve vlc_prio_val ?subs) =
     [\<lparr>psz_path = Some ''/d/movie.srt'', i_priority = 3, b_rejected = False\<rparr>,
      \<lparr>psz_path = Some ''/d/song.cdg'', i_priority = 3, b_rejected = True\<rparr>]"
    by code_simp
  have "b_rejected (fst (subtitles_resolve vlc_prio_val ?subs) ! 0) = b_rejected (?subs ! 0)"
    using resolve_only_sets_rejected [of vlc_prio_val ?subs] e by simp
  with e r show ?thesis by simp
qed

text \<open>
  C4. Whenever the list holds a \<open>sub\<close> file and the \<open>idx\<close> file of the same base name,
  the pass rejects the \<open>sub\<close> file and keeps the \<open>idx\<close> file. The code does so only when
  every \<open>sub\<close> file of the list has its \<open>idx\<close> file: the scan for the index of a \<open>sub\<close>
  file that has none runs past the end of the array. Here that happens on the first
  subtitle, before \<open>movie.sub\<close> has been looked at, and the list is left as it was.
\<close>

theorem resolve_unpaired_sub_reads_past_end:
  "subtitles_resolve pv
     [\<lparr>psz_path = Some ''/d/other.sub'', i_priority = p1, b_rejected = False\<rparr>,
      \<lparr>psz_path = Some ''/d/movie.sub'', i_priority = p2, b_rejected = False\<rparr>,
      \<lparr>psz_path = Some ''/d/movie.idx'', i_priority = p3, b_rejected = False\<rparr>] =
     ([\<lparr>psz_path = Some ''/d/other.sub'', i_priority = p1, b_rejected = False\<rparr>,
       \<lparr>psz_path = Some ''/d/movie.sub'', i_priority = p2, b_rejected = False\<rparr>,
       \<lparr>psz_path = Some ''/d/movie.idx'', i_priority = p3, b_rejected = False\<rparr>],
      Some OutOfBounds)"
  by code_simp

lemma resolve_loop_rejects_sub:
  "snd (resolve_loop pv i subs) = None \<Longrightarrow> i \<le> k \<Longrightarrow> k < length subs \<Longrightarrow>
   psz_path (subs ! k) = Some p \<Longrightarrow> path_ext_is p ''sub'' \<Longrightarrow>
   b_rejected (fst (resolve_loop pv i subs) ! k)"
proof (induction pv i subs rule: resolve_loop.induct)
  case (1 pv i subs)
  let ?r = "resolve_one pv subs (subs ! i)"
  let ?subs' = "subs[i := fst ?r]"
  from "1.prems" have i: "i < length subs" by simp
  have n: "snd ?r = None"
  proof (rule ccontr)
    assume "snd ?r \<noteq> None"
    with i have "resolve_loop pv i subs = (?subs', snd ?r)" by (subst resolve_loop.simps) auto
    with "1.prems"(1) \<open>snd ?r \<noteq> None\<close> show False by simp
  qed
  with i have eq: "resolve_loop pv i subs = resolve_loop pv (Suc i) ?subs'"
    by (subst resolve_loop.simps) simp
  show ?case
  proof (cases "k = i")
    case True
    have "b_rejected (fst ?r)"
      using n "1.prems"(4,5) True
      by (auto simp: resolve_one_def path_ext_is_def split: option.splits)
    hence "b_rejected (?subs' ! k)" using True i by simp
    moreover have "k < length ?subs'" using "1.prems" by simp
    ultimately show ?thesis unfolding eq using resolve_loop_frame [of pv "Suc i" ?subs'] by blast
  next
    case False
    hence "Suc i \<le> k" using "1.prems" by simp
    moreover have "psz_path (?subs' ! k) = Some p" using False "1.prems" by simp
    ultimately show ?thesis
      using "1.IH" [OF i n] "1.prems" eq by simp
  qed
qed

lemma idx_not_sub_cdg: "path_ext_is q ''idx'' \<Longrightarrow> \<not> path_ext_is q ''sub'' \<and> \<not> path_ext_is q ''cdg''"
proof -
  have "map tolower ''idx'' \<noteq> map tolower ''sub''" "map tolower ''idx'' \<noteq> map tolower ''cdg''"
    by code_simp+
  moreover assume "path_ext_is q ''idx''"
  ultimately show ?thesis
    by (auto simp: path_ext_is_def strcasecmp_is0_def split: option.splits)
qed

text \<open>When the pass runs to its end, a sub file is rejected and its idx file is left as it was.\<close>

lemma pairing_rule_when_pass_completes:
  assumes "snd (subtitles_resolve pv subs) = None"
    and "i < length subs" "psz_path (subs ! i) = Some p" "path_ext_is p ''sub''"
    and "j < length subs" "psz_path (subs ! j) = Some q" "path_ext_is q ''idx''"
  shows "b_rejected (fst (subtitles_resolve pv subs) ! i) \<and>
         b_rejected (fst (subtitles_resolve pv subs) ! j) = b_rejected (subs ! j)"
  using assms resolve_loop_rejects_sub [of pv 0 subs i p] resolve_loop_frame [of pv 0 subs]
    idx_not_sub_cdg [of q]
  unfolding subtitles_resolve_def by auto

section \<open>The threshold in the scan of \<open>subtitles_Detect\<close>\<close>

lemma detect_entry_grows:
  "length (fst acc) \<le> length (fst (detect_entry env pv fz trim fname dir prim name acc))"
  by (cases acc) (simp add: detect_entry_def subtitle_New_def Let_def)

lemma detect_readdir_grows:
  "length (fst acc) \<le> length (fst (detect_readdir env pv fz trim fname dir prim names acc))"
proof (induction names arbitrary: acc)
  case Nil
  show ?case by simp
next
  case (Cons n names)
  have "length (fst acc) \<le> length (fst (detect_entry env pv fz trim fname dir prim n (fst acc, snd acc @ [Readdir dir])))"
    using detect_entry_grows [of "(fst acc, snd acc @ [Readdir dir])"] by simp
  also have "\<dots> \<le> length (fst (detect_readdir env pv fz trim fname dir prim (n # names) acc))"
    using Cons.IH by simp
  finally show ?case .
qed

lemma detect_dir_grows:
  "length (fst acc) \<le> length (fst (detect_dir env pv fz trim fname fdir prim dir acc))"
  using detect_readdir_grows [of "(fst acc, snd acc @ [Opendir dir])"]
  by (simp add: detect_dir_def split: option.splits)

lemma detect_subdirs_grows:
  "length (fst acc) \<le> length (fst (detect_subdirs env pv fz trim fname fdir ds acc))"
proof (induction ds arbitrary: acc)
  case Nil
  show ?case by simp
next
  case (Cons d ds)
  have "length (fst acc) \<le> length (fst (detect_dir env pv fz trim fname fdir False d acc))"
    by (rule detect_dir_grows)
  also have "\<dots> \<le> length (fst (detect_subdirs env pv fz trim fname fdir (d # ds) acc))"
    using Cons.IH by simp
  finally show ?case .
qed

lemma detect_entry_mono:
  "t1 \<le> t2 \<Longrightarrow> length (fst a2) \<le> length (fst a1) \<Longrightarrow>
   length (fst (detect_entry env pv t2 trim fname dir prim name a2))
     \<le> length (fst (detect_entry env pv t1 trim fname dir prim name a1))"
  by (cases a1; cases a2) (auto simp: detect_entry_def subtitle_New_def Let_def)

lemma detect_readdir_mono:
  "t1 \<le> t2 \<Longrightarrow> length (fst a2) \<le> length (fst a1) \<Longrightarrow>
   length (fst (detect_readdir env pv t2 trim fname dir prim names a2))
     \<le> length (fst (detect_readdir env pv t1 trim fname dir prim names a1))"
proof (induction names arbitrary: a1 a2)
  case Nil
  thus ?case by simp
next
  case (Cons n names)
  show ?case
    using Cons.prems
    by (simp del: fst_conv) (rule Cons.IH, simp, rule detect_entry_mono, simp_all)
qed

lemma detect_dir_mono:
  "t1 \<le> t2 \<Longrightarrow> length (fst a2) \<le> length (fst a1) \<Longrightarrow>
   length (fst (detect_dir env pv t2 trim fname fdir prim dir a2))
     \<le> length (fst (detect_dir env pv t1 trim fname fdir prim dir a1))"
  using detect_readdir_mono [of t1 t2 "(fst a2, snd a2 @ [Opendir dir])" "(fst a1, snd a1 @ [Opendir dir])"]
  by (simp add: detect_dir_def split: option.splits)

lemma detect_subdirs_mono:
  "t1 \<le> t2 \<Longrightarrow> length (fst a2) \<le> length (fst a1) \<Longrightarrow>
   length (fst (detect_subdirs env pv t2 trim fname fdir ds a2))
     \<le> length (fst (detect_subdirs env pv t1 trim fname fdir ds a1))"
proof (induction ds arbitrary: a1 a2)
  case Nil
  thus ?case by simp
next
  case (Cons d ds)
  show ?case using Cons.prems by (simp del: fst_conv) (rule Cons.IH, simp, rule detect_dir_mono, simp_all)
qed

lemma resolve_length: "length (fst (subtitles_resolve pv subs)) = length subs"
  using resolve_loop_frame [of pv 0 subs] by (simp add: subtitles_resolve_def)

lemma detect_scan_mono:
  assumes "t1 \<le> t2"
  shows "(detect_scan env pv t1 paths org p_result = None \<and> detect_scan env pv t2 paths org p_result = None) \<or>
         (\<exists>s1 s2. detect_scan env pv t1 paths org p_result = Some s1 \<and>
                  detect_scan env pv t2 paths org p_result = Some s2 \<and>
                  length (fst s2) \<le> length (fst s1) \<and> length p_result \<le> length (fst s1))"
proof (cases org)
  case None
  thus ?thesis by (simp add: detect_scan_def)
next
  case (Some name)
  show ?thesis
  proof (cases "vlc_uri2path env name")
    case None
    thus ?thesis using Some by (simp add: detect_scan_def)
  next
    case u: (Some fname)
    show ?thesis
    proof (cases "strrchr fname CHR ''/''")
      case None
      thus ?thesis using Some u by (simp add: detect_scan_def)
    next
      case s: (Some sep)
      have m: "\<And>trim fdir ds. length (fst (detect_subdirs env pv t2 trim fname fdir ds
             (detect_dir env pv t2 trim fname fdir True fdir (p_result, []))))
         \<le> length (fst (detect_subdirs env pv t1 trim fname fdir ds
             (detect_dir env pv t1 trim fname fdir True fdir (p_result, []))))"
        using assms by (intro detect_subdirs_mono detect_dir_mono) simp_all
      have g: "\<And>trim fdir ds. length p_result \<le> length (fst (detect_subdirs env pv t1 trim fname fdir ds
             (detect_dir env pv t1 trim fname fdir True fdir (p_result, []))))"
      proof -
        fix trim fdir ds
        have "length p_result \<le> length (fst (detect_dir env pv t1 trim fname fdir True fdir (p_result, [])))"
          using detect_dir_grows [of "(p_result, [])"] by simp
        also have "\<dots> \<le> length (fst (detect_subdirs env pv t1 trim fname fdir ds
             (detect_dir env pv t1 trim fname fdir True fdir (p_result, []))))"
          by (rule detect_subdirs_grows)
        finally show "length p_result \<le> length (fst (detect_subdirs env pv t1 trim fname fdir ds
             (detect_dir env pv t1 trim fname fdir True fdir (p_result, []))))" .
      qed
      show ?thesis using Some u s m g by (simp add: detect_scan_def Let_def)
    qed
  qed
qed

lemma int_of_int64_id: "- 2147483648 \<le> v \<Longrightarrow> v < 2147483648 \<Longrightarrow> int_of_int64 v = v"
  by (simp add: int_of_int64_def)

lemma detect_threshold_mono:
  assumes "int_of_int64 t1 \<le> int_of_int64 t2" "int_of_int64 t1 \<noteq> 0"
  shows "length (result (subtitles_Detect env pv t2 paths org p_result))
         \<le> length (result (subtitles_Detect env pv t1 paths org p_result))"
proof -
  from detect_scan_mono [OF assms(1), of env pv paths org p_result]
  show ?thesis using assms(2)
    by (auto simp: subtitles_Detect_def Let_def resolve_length)
qed


section \<open>The threshold in \<open>attach_slaves\<close>\<close>

lemma item_sim_refl: "item_sim a a"
  by (simp add: item_sim_def)

lemma item_sim_trans: "item_sim a b \<Longrightarrow> item_sim b c \<Longrightarrow> item_sim a c"
  by (auto simp: item_sim_def)

lemma store_sim_refl: "store_sim st st"
  by (simp add: store_sim_def)

lemma inner_grows:
  "item_sim (fst (attach_slaves_inner pv fz js it st)) it"
proof (induction js arbitrary: it st)
  case Nil
  show ?case by (simp add: item_sim_def)
next
  case (Cons j js)
  show ?case
  proof (cases "st ! j")
    case None
    thus ?thesis by (simp add: item_sim_def)
  next
    case (Some sl)
    let ?p = "uint8 (pv (calculate_slave_priority (psz_uri it) (slave_psz_uri sl)))"
    show ?thesis
    proof (cases "fz \<le> ?p")
      case True
      have "item_sim (it\<lparr>pp_slaves := pp_slaves it @ [j]\<rparr>) it" by (simp add: item_sim_def)
      with Cons.IH [of "it\<lparr>pp_slaves := pp_slaves it @ [j]\<rparr>"] show ?thesis
        using Some True by (auto simp: Let_def intro: item_sim_trans)
    next
      case False
      with Cons.IH [of it] show ?thesis using Some by (simp add: Let_def)
    qed
  qed
qed

lemma store_sim_update:
  "store_sim st1 st2 \<Longrightarrow> j < length st2 \<Longrightarrow>
   (\<And>s2. y = Some s2 \<Longrightarrow> \<exists>s1. x = Some s1 \<and> slave_psz_uri s1 = slave_psz_uri s2) \<Longrightarrow>
   store_sim (st1[j := x]) (st2[j := y])"
  unfolding store_sim_def by (auto simp: nth_list_update)

lemma inner_sim:
  "t1 \<le> t2 \<Longrightarrow> store_sim st1 st2 \<Longrightarrow> item_sim it1 it2 \<Longrightarrow> \<forall>j \<in> set js. j < length st2 \<Longrightarrow>
   item_sim (fst (attach_slaves_inner pv t1 js it1 st1)) (fst (attach_slaves_inner pv t2 js it2 st2)) \<and>
   (snd (snd (attach_slaves_inner pv t2 js it2 st2)) = None \<longrightarrow>
      snd (snd (attach_slaves_inner pv t1 js it1 st1)) = None \<and>
      store_sim (fst (snd (attach_slaves_inner pv t1 js it1 st1)))
                (fst (snd (attach_slaves_inner pv t2 js it2 st2))))"
proof (induction js arbitrary: it1 it2 st1 st2)
  case Nil
  thus ?case by simp
next
  case (Cons j js)
  from Cons.prems have j: "j < length st2" and js: "\<forall>j \<in> set js. j < length st2" by simp_all
  show ?case
  proof (cases "st2 ! j")
    case None
    have "item_sim (fst (attach_slaves_inner pv t1 (j # js) it1 st1)) it1" by (rule inner_grows)
    hence "item_sim (fst (attach_slaves_inner pv t1 (j # js) it1 st1)) it2"
      using Cons.prems(3) by (rule item_sim_trans)
    thus ?thesis using None by simp
  next
    case (Some s2)
    with Cons.prems(2) j obtain s1 where s1: "st1 ! j = Some s1" "slave_psz_uri s1 = slave_psz_uri s2"
      unfolding store_sim_def by blast
    have u: "psz_uri it1 = psz_uri it2" using Cons.prems(3) by (simp add: item_sim_def)
    let ?p = "uint8 (pv (calculate_slave_priority (psz_uri it2) (slave_psz_uri s2)))"
    let ?a1 = "it1\<lparr>pp_slaves := pp_slaves it1 @ [j]\<rparr>"
    let ?a2 = "it2\<lparr>pp_slaves := pp_slaves it2 @ [j]\<rparr>"
    let ?k1 = "st1[j := Some (s1\<lparr>slave_i_priority := ?p\<rparr>)]"
    let ?k2 = "st2[j := Some (s2\<lparr>slave_i_priority := ?p\<rparr>)]"
    consider (both) "t2 \<le> ?p" | (one) "t1 \<le> ?p" "\<not> t2 \<le> ?p" | (none) "\<not> t1 \<le> ?p"
      by linarith
    thus ?thesis
    proof cases
      case both
      hence b1: "t1 \<le> ?p" using Cons.prems(1) by simp
      have "store_sim ?k1 ?k2" using Cons.prems(2) j s1 by (intro store_sim_update) auto
      moreover have "item_sim ?a1 ?a2" using Cons.prems(3) by (simp add: item_sim_def)
      moreover have "\<forall>j \<in> set js. j < length ?k2" using js by simp
      ultimately show ?thesis
        using Cons.IH [OF Cons.prems(1), of ?k1 ?k2 ?a1 ?a2] Some s1 u both b1
        by (simp add: Let_def)
    next
      case one
      have "store_sim ?k1 (st2[j := None])" using Cons.prems(2) j by (intro store_sim_update) auto
      moreover have "item_sim ?a1 it2" using Cons.prems(3) by (simp add: item_sim_def)
      moreover have "\<forall>j \<in> set js. j < length (st2[j := None])" using js by simp
      ultimately show ?thesis
        using Cons.IH [OF Cons.prems(1), of ?k1 "st2[j := None]" ?a1 it2] Some s1 u one
        by (simp add: Let_def)
    next
      case none
      hence n2: "\<not> t2 \<le> ?p" using Cons.prems(1) by simp
      have "store_sim (st1[j := None]) (st2[j := None])"
        using Cons.prems(2) j by (intro store_sim_update) auto
      moreover have "\<forall>j \<in> set js. j < length (st2[j := None])" using js by simp
      ultimately show ?thesis
        using Cons.IH [OF Cons.prems(1), of "st1[j := None]" "st2[j := None]" it1 it2]
          Cons.prems(3) Some s1 u none n2
        by (simp add: Let_def)
    qed
  qed
qed

lemma outer_grows:
  "list_all2 item_sim (fst (attach_slaves_outer pv fz items st)) items"
proof (induction items arbitrary: st)
  case Nil
  show ?case by simp
next
  case (Cons it items)
  obtain it' st' f where r: "attach_slaves_inner pv fz [0..<length st] it st = (it', st', f)"
    by (cases "attach_slaves_inner pv fz [0..<length st] it st") auto
  have h: "item_sim it' it" using inner_grows [of pv fz "[0..<length st]" it st] r by simp
  show ?case
  proof (cases f)
    case None
    obtain items' st'' f' where o: "attach_slaves_outer pv fz items st' = (items', st'', f')"
      by (cases "attach_slaves_outer pv fz items st'") auto
    with Cons.IH [of st'] have "list_all2 item_sim items' items" by simp
    thus ?thesis using r None o h by simp
  next
    case (Some x)
    have "list_all2 item_sim items items" by (simp add: list_all2_refl item_sim_refl)
    thus ?thesis using r Some h by simp
  qed
qed

lemma outer_sim:
  "t1 \<le> t2 \<Longrightarrow> store_sim st1 st2 \<Longrightarrow> list_all2 item_sim its1 its2 \<Longrightarrow>
   list_all2 item_sim (fst (attach_slaves_outer pv t1 its1 st1)) (fst (attach_slaves_outer pv t2 its2 st2))"
proof (induction its1 arbitrary: its2 st1 st2)
  case Nil
  thus ?case by simp
next
  case (Cons a its1)
  from Cons.prems(3) obtain b its2' where b: "its2 = b # its2'" "item_sim a b" "list_all2 item_sim its1 its2'"
    by (cases its2) auto
  have len: "length st1 = length st2" using Cons.prems(2) by (simp add: store_sim_def)
  obtain a' k1 f1 where r1: "attach_slaves_inner pv t1 [0..<length st2] a st1 = (a', k1, f1)"
    by (cases "attach_slaves_inner pv t1 [0..<length st2] a st1") auto
  obtain b' k2 f2 where r2: "attach_slaves_inner pv t2 [0..<length st2] b st2 = (b', k2, f2)"
    by (cases "attach_slaves_inner pv t2 [0..<length st2] b st2") auto
  have sim: "item_sim a' b'" "f2 = None \<longrightarrow> f1 = None \<and> store_sim k1 k2"
    using inner_sim [OF Cons.prems(1,2) b(2), of "[0..<length st2]" pv] r1 r2 by simp_all
  have rest1: "list_all2 item_sim (fst (attach_slaves_outer pv t1 its1 k1)) its2'"
    using outer_grows [of pv t1 its1 k1] b(3)
    by (rule list_all2_trans [rotated]) (rule item_sim_trans)
  show ?case
  proof (cases f2)
    case (Some x)
    show ?thesis
    proof (cases f1)
      case None
      obtain its1' k1' f1' where o1: "attach_slaves_outer pv t1 its1 k1 = (its1', k1', f1')"
        by (cases "attach_slaves_outer pv t1 its1 k1") auto
      thus ?thesis using r1 r2 Some None sim rest1 b len by simp
    next
      case s1: (Some y)
      thus ?thesis using r1 r2 Some sim b len by simp
    qed
  next
    case None
    with sim have f1: "f1 = None" and k: "store_sim k1 k2" by simp_all
    obtain its1' k1' f1' where o1: "attach_slaves_outer pv t1 its1 k1 = (its1', k1', f1')"
      by (cases "attach_slaves_outer pv t1 its1 k1") auto
    obtain its2'' k2' f2' where o2: "attach_slaves_outer pv t2 its2' k2 = (its2'', k2', f2')"
      by (cases "attach_slaves_outer pv t2 its2' k2") auto
    have "list_all2 item_sim its1' its2''"
      using Cons.IH [OF Cons.prems(1) k b(3)] o1 o2 by simp
    thus ?thesis using r1 r2 None f1 o1 o2 sim b len by simp
  qed
qed

lemma count_sim: "list_all2 item_sim xs ys \<Longrightarrow> attached_count ys \<le> attached_count xs"
  unfolding attached_count_def
  by (induction rule: list_all2_induct) (auto simp: item_sim_def)

lemma attach_slaves_mono:
  assumes "int_of_int64 t1 \<le> int_of_int64 t2" "int_of_int64 t1 \<noteq> 0"
  shows "attached_count (fst (attach_slaves pv t2 children p_slaves))
         \<le> attached_count (fst (attach_slaves pv t1 children p_slaves))"
proof (cases "int_of_int64 t2 = 0")
  case True
  thus ?thesis using assms(2) outer_grows [of pv "int_of_int64 t1" children p_slaves]
    by (simp add: attach_slaves_def Let_def count_sim)
next
  case False
  have "list_all2 item_sim children children" by (simp add: list_all2_refl item_sim_refl)
  from outer_sim [OF assms(1) store_sim_refl this, of pv p_slaves]
  show ?thesis using False assms(2) by (simp add: attach_slaves_def Let_def count_sim)
qed

lemma count_insert:
  "attached_count (node_insert compar x ys) = length (pp_slaves x) + attached_count ys"
  by (induction ys) (auto simp: attached_count_def)

lemma count_sort: "attached_count (input_item_node_Sort compar xs) = attached_count xs"
  by (induction xs) (simp_all add: count_insert, simp_all add: attached_count_def)

lemma count_demux_sort: "attached_count (demux_sort strcoll p_sys vars xs) = attached_count xs"
  by (simp add: demux_sort_def count_sort split: option.splits)

lemma demux_entry_fuzzy:
  "demux_entry pv (vars\<lparr>sub_autodetect_fuzzy := t\<rparr>) p_item acc = demux_entry pv vars p_item acc"
  by (cases acc) (simp add: demux_entry_def)

lemma demux_read_fuzzy:
  "demux_read pv (vars\<lparr>sub_autodetect_fuzzy := t\<rparr>) stream acc = demux_read pv vars stream acc"
  by (induction stream arbitrary: acc) (simp_all add: demux_entry_fuzzy)

lemma demux_count:
  "attached_count (node_children (Demux strcoll pv p_sys vars stream)) =
   attached_count (fst (attach_slaves pv (sub_autodetect_fuzzy vars)
      (fst (fst (demux_read pv vars stream (([], []), 0))))
      (snd (fst (demux_read pv vars stream (([], []), 0))))))"
  by (simp add: Demux_def count_demux_sort split: prod.splits option.splits)

lemma Demux_threshold_mono:
  assumes "int_of_int64 t1 \<le> int_of_int64 t2" "int_of_int64 t1 \<noteq> 0"
  shows "attached_count (node_children (Demux strcoll pv p_sys (vars\<lparr>sub_autodetect_fuzzy := t2\<rparr>) stream))
       \<le> attached_count (node_children (Demux strcoll pv p_sys (vars\<lparr>sub_autodetect_fuzzy := t1\<rparr>) stream))"
  unfolding demux_count demux_read_fuzzy using attach_slaves_mono [OF assms] by simp

section \<open>The threshold and the number of candidates\<close>

text \<open>
  C6. Raising the threshold never increases the number of candidates, for a fixed
  directory, as long as the lower threshold is not zero and both thresholds are in the
  range of an \<open>int\<close>: the list that \<open>subtitles_Detect\<close> leaves is no longer at \<open>t2\<close> than
  at \<open>t1\<close>, and \<open>Demux\<close> attaches no more slaves at \<open>t2\<close> than at \<open>t1\<close>. More generally
  this holds of any two values of the variable when the numbers that the code reads
  from them, after the conversion to \<open>int\<close>, are in that order and the lower one is not
  zero. (At zero nothing is looked for, so going from zero to any other threshold can
  only add candidates; and a value outside the range of an \<open>int\<close> acts as another
  number.)
\<close>

theorem threshold_monotone_nonzero:
  "(int_of_int64 t1 \<le> int_of_int64 t2 \<and> int_of_int64 t1 \<noteq> 0 \<longrightarrow>
      length (result (subtitles_Detect env pv t2 paths org p_result))
        \<le> length (result (subtitles_Detect env pv t1 paths org p_result)) \<and>
      attached_count (node_children (Demux strcoll pv p_sys (vars\<lparr>sub_autodetect_fuzzy := t2\<rparr>) stream))
        \<le> attached_count (node_children (Demux strcoll pv p_sys (vars\<lparr>sub_autodetect_fuzzy := t1\<rparr>) stream))) \<and>
   (- 2147483648 \<le> t1 \<and> t1 \<le> t2 \<and> t2 < 2147483648 \<and> t1 \<noteq> 0 \<longrightarrow>
      length (result (subtitles_Detect env pv t2 paths org p_result))
        \<le> length (result (subtitles_Detect env pv t1 paths org p_result)) \<and>
      attached_count (node_children (Demux strcoll pv p_sys (vars\<lparr>sub_autodetect_fuzzy := t2\<rparr>) stream))
        \<le> attached_count (node_children (Demux strcoll pv p_sys (vars\<lparr>sub_autodetect_fuzzy := t1\<rparr>) stream)))"
proof -
  have g: "int_of_int64 t1 \<le> int_of_int64 t2 \<Longrightarrow> int_of_int64 t1 \<noteq> 0 \<Longrightarrow>
      length (result (subtitles_Detect env pv t2 paths org p_result))
        \<le> length (result (subtitles_Detect env pv t1 paths org p_result)) \<and>
      attached_count (node_children (Demux strcoll pv p_sys (vars\<lparr>sub_autodetect_fuzzy := t2\<rparr>) stream))
        \<le> attached_count (node_children (Demux strcoll pv p_sys (vars\<lparr>sub_autodetect_fuzzy := t1\<rparr>) stream))"
    using detect_threshold_mono [of t1 t2 env pv paths org p_result]
      Demux_threshold_mono [of t1 t2 strcoll pv p_sys vars stream] by blast
  have r: "- 2147483648 \<le> t1 \<and> t1 \<le> t2 \<and> t2 < 2147483648 \<and> t1 \<noteq> 0 \<Longrightarrow>
      int_of_int64 t1 \<le> int_of_int64 t2 \<and> int_of_int64 t1 \<noteq> 0"
    using int_of_int64_id [of t1] int_of_int64_id [of t2] by simp
  from g r show ?thesis by blast
qed

theorem threshold_monotone_nonzero_witness:
  "int_of_int64 1 \<le> int_of_int64 4 \<and> int_of_int64 1 \<noteq> 0 \<and>
   - 2147483648 \<le> (1::int) \<and> (1::int) \<le> 4 \<and> (4::int) < 2147483648 \<and> (1::int) \<noteq> 0 \<and>
   length (result (subtitles_Detect (example_fs [''movie.srt'', ''other.srt'']) vlc_prio_val 4 None
              (Some ''/d/movie.avi'') []))
     \<le> length (result (subtitles_Detect (example_fs [''movie.srt'', ''other.srt'']) vlc_prio_val 1 None
              (Some ''/d/movie.avi'') [])) \<and>
   attached_count (node_children (Demux (\<lambda>a b. 0) vlc_prio_val \<lparr>b_dir_sorted = False, b_dir_can_loop = False\<rparr>
       (\<lparr>show_hiddenfiles = False, ignore_filetypes = None, sub_autodetect_fuzzy = 0,
         directory_sort = None\<rparr>\<lparr>sub_autodetect_fuzzy := 4\<rparr>)
       [example_item ''movie.avi'' ITEM_TYPE_FILE, example_item ''movie.srt'' ITEM_TYPE_FILE]))
     \<le> attached_count (node_children (Demux (\<lambda>a b. 0) vlc_prio_val \<lparr>b_dir_sorted = False, b_dir_can_loop = False\<rparr>
       (\<lparr>show_hiddenfiles = False, ignore_filetypes = None, sub_autodetect_fuzzy = 0,
         directory_sort = None\<rparr>\<lparr>sub_autodetect_fuzzy := 1\<rparr>)
       [example_item ''movie.avi'' ITEM_TYPE_FILE, example_item ''movie.srt'' ITEM_TYPE_FILE])) \<and>
   length (result (subtitles_Detect (example_fs [''movie.srt'', ''other.srt'']) vlc_prio_val 4 None
              (Some ''/d/movie.avi'') [])) = 1 \<and>
   length (result (subtitles_Detect (example_fs [''movie.srt'', ''other.srt'']) vlc_prio_val 1 None
              (Some ''/d/movie.avi'') [])) = 2"
proof -
  have h: "int_of_int64 1 \<le> int_of_int64 4" "int_of_int64 1 \<noteq> 0" by code_simp+
  have k: "- 2147483648 \<le> (1::int) \<and> (1::int) \<le> 4 \<and> (4::int) < 2147483648 \<and> (1::int) \<noteq> 0" by simp
  have e: "length (result (subtitles_Detect (example_fs [''movie.srt'', ''other.srt'']) vlc_prio_val 4 None
              (Some ''/d/movie.avi'') [])) = 1"
    "length (result (subtitles_Detect (example_fs [''movie.srt'', ''other.srt'']) vlc_prio_val 1 None
              (Some ''/d/movie.avi'') [])) = 2" by code_simp+
  note T = threshold_monotone_nonzero [where ?t1.0 = 1 and ?t2.0 = 4]
  have 1: "length (result (subtitles_Detect (example_fs [''movie.srt'', ''other.srt'']) vlc_prio_val 4 None
              (Some ''/d/movie.avi'') []))
     \<le> length (result (subtitles_Detect (example_fs [''movie.srt'', ''other.srt'']) vlc_prio_val 1 None
              (Some ''/d/movie.avi'') []))"
    using T [where env = "example_fs [''movie.srt'', ''other.srt'']" and pv = vlc_prio_val and paths = None
        and org = "Some ''/d/movie.avi''" and p_result = "[]"] h by blast
  have 2: "attached_count (node_children (Demux (\<lambda>a b. 0) vlc_prio_val \<lparr>b_dir_sorted = False, b_dir_can_loop = False\<rparr>
       (\<lparr>show_hiddenfiles = False, ignore_filetypes = None, sub_autodetect_fuzzy = 0,
         directory_sort = None\<rparr>\<lparr>sub_autodetect_fuzzy := 4\<rparr>)
       [example_item ''movie.avi'' ITEM_TYPE_FILE, example_item ''movie.srt'' ITEM_TYPE_FILE]))
     \<le> attached_count (node_children (Demux (\<lambda>a b. 0) vlc_prio_val \<lparr>b_dir_sorted = False, b_dir_can_loop = False\<rparr>
       (\<lparr>show_hiddenfiles = False, ignore_filetypes = None, sub_autodetect_fuzzy = 0,
         directory_sort = None\<rparr>\<lparr>sub_autodetect_fuzzy := 1\<rparr>)
       [example_item ''movie.avi'' ITEM_TYPE_FILE, example_item ''movie.srt'' ITEM_TYPE_FILE]))"
    using T [where strcoll = "\<lambda>a b. 0" and pv = vlc_prio_val
        and p_sys = "\<lparr>b_dir_sorted = False, b_dir_can_loop = False\<rparr>"
        and vars = "\<lparr>show_hiddenfiles = False, ignore_filetypes = None, sub_autodetect_fuzzy = 0,
         directory_sort = None\<rparr>"
        and stream = "[example_item ''movie.avi'' ITEM_TYPE_FILE, example_item ''movie.srt'' ITEM_TYPE_FILE]"]
      k by blast
  from h k e 1 2 show ?thesis by blast
qed

text \<open>
  Two instances where a higher value of the variable gives more candidates. Between 0
  and 1: at 0 the directory with \<open>movie.srt\<close> gives no candidate, at 1 it gives one.
  Between 4 and 4294967297, which is read as 1: at 4 the directory with \<open>movie.srt\<close>
  and \<open>other.srt\<close> gives one candidate for \<open>movie.avi\<close>, at 4294967297 it gives two.
\<close>

theorem higher_threshold_more_candidates:
  "(0::int) \<le> 1 \<and>
   \<not> length (result (subtitles_Detect (example_fs [''movie.srt'']) vlc_prio_val 1 None
                   (Some ''/d/movie.avi'') []))
     \<le> length (result (subtitles_Detect (example_fs [''movie.srt'']) vlc_prio_val 0 None
                   (Some ''/d/movie.avi'') [])) \<and>
   (4::int) \<le> 4294967297 \<and> (4::int) \<noteq> 0 \<and>
   length (result (subtitles_Detect (example_fs [''movie.srt'', ''other.srt'']) vlc_prio_val 4 None
                   (Some ''/d/movie.avi'') [])) = 1 \<and>
   length (result (subtitles_Detect (example_fs [''movie.srt'', ''other.srt'']) vlc_prio_val 4294967297 None
                   (Some ''/d/movie.avi'') [])) = 2 \<and>
   attached_count (node_children (Demux (\<lambda>a b. 0) vlc_prio_val \<lparr>b_dir_sorted = False, b_dir_can_loop = False\<rparr>
       \<lparr>show_hiddenfiles = False, ignore_filetypes = None, sub_autodetect_fuzzy = 4, directory_sort = None\<rparr>
       [example_item ''movie.avi'' ITEM_TYPE_FILE, example_item ''other.srt'' ITEM_TYPE_FILE])) = 0 \<and>
   attached_count (node_children (Demux (\<lambda>a b. 0) vlc_prio_val \<lparr>b_dir_sorted = False, b_dir_can_loop = False\<rparr>
       \<lparr>show_hiddenfiles = False, ignore_filetypes = None, sub_autodetect_fuzzy = 4294967297,
         directory_sort = None\<rparr>
       [example_item ''movie.avi'' ITEM_TYPE_FILE, example_item ''other.srt'' ITEM_TYPE_FILE])) = 1"
  by code_simp

section \<open>The threshold zero\<close>

lemma demux_entry_children:
  "set (fst (demux_entry pv vars p_item acc)) \<subseteq> insert p_item (set (fst acc))"
  by (cases acc) (auto simp: demux_entry_def split: option.splits)

lemma demux_read_children:
  "set (fst (fst (demux_read pv vars stream acc))) \<subseteq> set stream \<union> set (fst (fst acc)) \<and>
   snd (demux_read pv vars stream acc) = snd acc + length stream"
proof (induction stream arbitrary: acc)
  case Nil
  show ?case by simp
next
  case (Cons p_item stream)
  show ?case
    using Cons.IH [of "(demux_entry pv vars p_item (fst acc), Suc (snd acc))"]
      demux_entry_children [of pv vars p_item "fst acc"]
    by auto
qed

lemma set_node_insert: "set (node_insert compar x ys) = insert x (set ys)"
  by (induction ys) auto

lemma set_node_Sort: "set (input_item_node_Sort compar xs) = set xs"
  by (induction xs) (auto simp: set_node_insert)

lemma set_demux_sort: "set (demux_sort strcoll p_sys vars xs) = set xs"
  by (simp add: demux_sort_def set_node_Sort split: option.splits)

lemma Demux_items_read: "items_read (Demux strcoll pv p_sys vars stream) = length stream"
  using demux_read_children [of pv vars stream "(([], []), 0)"]
  by (auto simp: Demux_def split: prod.splits option.splits)

text \<open>
  C5. With the threshold zero, \<open>subtitles_Detect\<close> returns \<open>VLC_EGENERIC\<close> at once: it
  leaves the list as it was and makes no call to the file system. \<open>attach_slaves\<close>
  returns at once too and attaches nothing, so that the children that \<open>Demux\<close> posts are
  items of the stream as they were read. The reading loop of \<open>Demux\<close> comes before that
  test and builds the playlist as well: it reads every item of the directory, at the
  threshold zero as at any other.
\<close>

theorem threshold_zero_disables:
  "subtitles_Detect env pv 0 paths org p_result =
     \<lparr>ret = Some VLC_EGENERIC, result = p_result, calls = [], stopped = None\<rparr> \<and>
   attach_slaves pv 0 children p_slaves = (children, p_slaves, None) \<and>
   (sub_autodetect_fuzzy vars = 0 \<longrightarrow>
      set (node_children (Demux strcoll pv p_sys vars stream)) \<subseteq> set stream \<and>
      demux_stopped (Demux strcoll pv p_sys vars stream) = None \<and>
      items_read (Demux strcoll pv p_sys vars stream) = length stream)"
proof -
  have "sub_autodetect_fuzzy vars = 0 \<Longrightarrow>
      set (node_children (Demux strcoll pv p_sys vars stream)) \<subseteq> set stream \<and>
      demux_stopped (Demux strcoll pv p_sys vars stream) = None"
    using demux_read_children [of pv vars stream "(([], []), 0)"]
    by (auto simp: Demux_def attach_slaves_def int_of_int64_def set_demux_sort split: prod.splits)
  thus ?thesis
    by (simp add: subtitles_Detect_def attach_slaves_def int_of_int64_def Demux_items_read)
qed

theorem threshold_zero_disables_witness:
  "sub_autodetect_fuzzy \<lparr>show_hiddenfiles = False, ignore_filetypes = None, sub_autodetect_fuzzy = 0,
         directory_sort = None\<rparr> = 0 \<and>
   set (node_children (Demux (\<lambda>a b. 0) vlc_prio_val \<lparr>b_dir_sorted = False, b_dir_can_loop = False\<rparr>
       \<lparr>show_hiddenfiles = False, ignore_filetypes = None, sub_autodetect_fuzzy = 0, directory_sort = None\<rparr>
       [example_item ''movie.avi'' ITEM_TYPE_FILE, example_item ''movie.srt'' ITEM_TYPE_FILE]))
     \<subseteq> set [example_item ''movie.avi'' ITEM_TYPE_FILE, example_item ''movie.srt'' ITEM_TYPE_FILE] \<and>
   node_children (Demux (\<lambda>a b. 0) vlc_prio_val \<lparr>b_dir_sorted = False, b_dir_can_loop = False\<rparr>
       \<lparr>show_hiddenfiles = False, ignore_filetypes = None, sub_autodetect_fuzzy = 0, directory_sort = None\<rparr>
       [example_item ''movie.avi'' ITEM_TYPE_FILE, example_item ''movie.srt'' ITEM_TYPE_FILE])
     = [example_item ''movie.avi'' ITEM_TYPE_FILE]"
proof -
  let ?vars = "\<lparr>show_hiddenfiles = False, ignore_filetypes = None, sub_autodetect_fuzzy = 0,
         directory_sort = None\<rparr>"
  have h: "sub_autodetect_fuzzy ?vars = 0" by simp
  have e: "node_children (Demux (\<lambda>a b. 0) vlc_prio_val \<lparr>b_dir_sorted = False, b_dir_can_loop = False\<rparr>
       ?vars [example_item ''movie.avi'' ITEM_TYPE_FILE, example_item ''movie.srt'' ITEM_TYPE_FILE])
     = [example_item ''movie.avi'' ITEM_TYPE_FILE]" by code_simp
  from threshold_zero_disables [where vars = ?vars and strcoll = "\<lambda>a b. 0" and pv = vlc_prio_val
      and p_sys = "\<lparr>b_dir_sorted = False, b_dir_can_loop = False\<rparr>"
      and stream = "[example_item ''movie.avi'' ITEM_TYPE_FILE, example_item ''movie.srt'' ITEM_TYPE_FILE]"] h
  have "set (node_children (Demux (\<lambda>a b. 0) vlc_prio_val \<lparr>b_dir_sorted = False, b_dir_can_loop = False\<rparr>
       ?vars [example_item ''movie.avi'' ITEM_TYPE_FILE, example_item ''movie.srt'' ITEM_TYPE_FILE]))
     \<subseteq> set [example_item ''movie.avi'' ITEM_TYPE_FILE, example_item ''movie.srt'' ITEM_TYPE_FILE]"
    by blast
  with h e show ?thesis by blast
qed

text \<open>
  For the directory listing it is not true that no directory is read: at the threshold zero
  \<open>Demux\<close> still reads the two items of this directory.
\<close>

theorem threshold_zero_still_reads_directory:
  "items_read (Demux (\<lambda>a b. 0) vlc_prio_val \<lparr>b_dir_sorted = False, b_dir_can_loop = False\<rparr>
       \<lparr>show_hiddenfiles = False, ignore_filetypes = None, sub_autodetect_fuzzy = 0, directory_sort = None\<rparr>
       [example_item ''movie.avi'' ITEM_TYPE_FILE, example_item ''movie.srt'' ITEM_TYPE_FILE]) = 2"
  by code_simp


section \<open>Hidden entries\<close>

lemma detect_entry_hidden:
  "name \<noteq> [] \<Longrightarrow> hd name = CHR ''.'' \<Longrightarrow>
   detect_entry env pv fz trim fname dir prim name acc = acc"
  by (cases acc) (simp add: detect_entry_def)

lemma detect_entry_fst:
  "fst (detect_entry env pv fz trim fname dir prim name (r, c)) =
   fst (detect_entry env pv fz trim fname dir prim name (r, c'))"
  by (simp add: detect_entry_def subtitle_New_def Let_def)

lemma detect_readdir_fst:
  "fst a = fst b \<Longrightarrow>
   fst (detect_readdir env pv fz trim fname dir prim names a) =
   fst (detect_readdir env pv fz trim fname dir prim names b)"
proof (induction names arbitrary: a b)
  case Nil
  thus ?case by simp
next
  case (Cons n names)
  have "fst (detect_entry env pv fz trim fname dir prim n (fst a, snd a @ [Readdir dir])) =
        fst (detect_entry env pv fz trim fname dir prim n (fst b, snd b @ [Readdir dir]))"
    using Cons.prems detect_entry_fst [of env pv fz trim fname dir prim n "fst b"] by simp
  thus ?case by (simp del: fst_conv) (rule Cons.IH)
qed

lemma detect_readdir_hidden:
  "fst (detect_readdir env pv fz trim fname dir prim names acc) =
   fst (detect_readdir env pv fz trim fname dir prim
          (filter (\<lambda>name. name = [] \<or> hd name \<noteq> CHR ''.'') names) acc)"
proof (induction names arbitrary: acc)
  case Nil
  show ?case by simp
next
  case (Cons n names)
  show ?case
  proof (cases "n = [] \<or> hd n \<noteq> CHR ''.''")
    case True
    thus ?thesis using Cons.IH by simp
  next
    case False
    hence "detect_entry env pv fz trim fname dir prim n (fst acc, snd acc @ [Readdir dir]) =
           (fst acc, snd acc @ [Readdir dir])"
      by (intro detect_entry_hidden) simp_all
    hence "fst (detect_readdir env pv fz trim fname dir prim (n # names) acc) =
           fst (detect_readdir env pv fz trim fname dir prim names (fst acc, snd acc @ [Readdir dir]))"
      by simp
    also have "\<dots> = fst (detect_readdir env pv fz trim fname dir prim names acc)"
      by (rule detect_readdir_fst) simp
    finally show ?thesis using False Cons.IH by simp
  qed
qed

lemma demux_entry_skipped:
  "psz_name p_item = ''.'' \<or> psz_name p_item = ''..'' \<or>
   (psz_name p_item \<noteq> [] \<and> hd (psz_name p_item) = CHR ''.'' \<and> \<not> show_hiddenfiles vars) \<Longrightarrow>
   demux_entry pv vars p_item acc = acc"
  by (cases acc) (auto simp: demux_entry_def)

lemma demux_read_fst:
  "fst (demux_read pv vars stream (a, n)) = fst (demux_read pv vars stream (a, m))"
  by (induction stream arbitrary: a n m) simp_all

lemma demux_read_hidden:
  "fst (demux_read pv vars stream acc) =
   fst (demux_read pv vars
          (filter (\<lambda>p_item. psz_name p_item \<noteq> ''.'' \<and> psz_name p_item \<noteq> ''..'' \<and>
                     (show_hiddenfiles vars \<or> psz_name p_item = [] \<or> hd (psz_name p_item) \<noteq> CHR ''.''))
             stream) acc)"
proof (induction stream arbitrary: acc)
  case Nil
  show ?case by simp
next
  case (Cons it stream)
  let ?keep = "psz_name it \<noteq> ''.'' \<and> psz_name it \<noteq> ''..'' \<and>
                     (show_hiddenfiles vars \<or> psz_name it = [] \<or> hd (psz_name it) \<noteq> CHR ''.'')"
  show ?case
  proof (cases ?keep)
    case True
    thus ?thesis using Cons.IH by simp
  next
    case False
    hence "demux_entry pv vars it (fst acc) = fst acc" by (intro demux_entry_skipped) auto
    hence "fst (demux_read pv vars (it # stream) acc) = fst (demux_read pv vars stream (fst acc, Suc (snd acc)))"
      by simp
    also have "\<dots> = fst (demux_read pv vars stream (fst acc, snd acc))" by (rule demux_read_fst)
    finally show ?thesis using False Cons.IH by simp
  qed
qed

text \<open>
  C8. The reading loop of \<open>Demux\<close> passes over \<open>.\<close> and \<open>..\<close> always and over any other
  name that begins with a dot when \<open>show-hiddenfiles\<close> is not set; when it is set, such
  a name is handled as any other name is (collected as a slave when \<open>is_slave\<close> accepts
  it, dropped when its extension is ignored, and a child of the node otherwise). The
  scan of \<open>subtitles_Detect\<close> has no such setting: it passes over every name that begins
  with a dot. So each loop collects what it would collect from the directory without
  the entries it passes over.
\<close>

theorem hidden_entries:
  "((psz_name p_item = ''.'' \<or> psz_name p_item = ''..'') \<longrightarrow> demux_entry pv vars p_item acc = acc) \<and>
   (psz_name p_item \<noteq> [] \<and> hd (psz_name p_item) = CHR ''.'' \<and> \<not> show_hiddenfiles vars \<longrightarrow>
      demux_entry pv vars p_item acc = acc) \<and>
   (psz_name p_item \<noteq> [] \<and> hd (psz_name p_item) = CHR ''.'' \<and> show_hiddenfiles vars \<and>
    psz_name p_item \<noteq> ''.'' \<and> psz_name p_item \<noteq> ''..'' \<longrightarrow>
      demux_entry pv vars p_item acc =
        (case is_slave (psz_name p_item) of
           Some i_slave_type \<Rightarrow>
             (fst acc,
              snd acc @ [Some \<lparr>slave_psz_uri = psz_uri p_item, slave_i_type = i_slave_type,
                                slave_i_priority = uint8 (pv SLAVE_PRIORITY_NONE)\<rparr>])
         | None \<Rightarrow>
             if has_ext (ignore_filetypes vars) (psz_name p_item) then acc
             else (fst acc @ [p_item], snd acc))) \<and>
   (name \<noteq> [] \<and> hd name = CHR ''.'' \<longrightarrow>
      detect_entry env pv i_fuzzy f_fname_trim psz_fname psz_dir primary name dacc = dacc) \<and>
   fst (demux_read pv vars stream racc) =
     fst (demux_read pv vars
            (filter (\<lambda>p_item. psz_name p_item \<noteq> ''.'' \<and> psz_name p_item \<noteq> ''..'' \<and>
                       (show_hiddenfiles vars \<or> psz_name p_item = [] \<or> hd (psz_name p_item) \<noteq> CHR ''.''))
               stream) racc) \<and>
   fst (detect_readdir env pv i_fuzzy f_fname_trim psz_fname psz_dir primary names dacc) =
     fst (detect_readdir env pv i_fuzzy f_fname_trim psz_fname psz_dir primary
            (filter (\<lambda>name. name = [] \<or> hd name \<noteq> CHR ''.'') names) dacc)"
proof -
  have "psz_name p_item \<noteq> [] \<and> hd (psz_name p_item) = CHR ''.'' \<and> show_hiddenfiles vars \<and>
    psz_name p_item \<noteq> ''.'' \<and> psz_name p_item \<noteq> ''..'' \<longrightarrow>
      demux_entry pv vars p_item acc =
        (case is_slave (psz_name p_item) of
           Some i_slave_type \<Rightarrow>
             (fst acc,
              snd acc @ [Some \<lparr>slave_psz_uri = psz_uri p_item, slave_i_type = i_slave_type,
                                slave_i_priority = uint8 (pv SLAVE_PRIORITY_NONE)\<rparr>])
         | None \<Rightarrow>
             if has_ext (ignore_filetypes vars) (psz_name p_item) then acc
             else (fst acc @ [p_item], snd acc))"
    by (cases acc) (auto simp: demux_entry_def split: option.splits)
  thus ?thesis
    using demux_entry_skipped [of p_item vars pv acc]
      detect_entry_hidden [of name env pv i_fuzzy f_fname_trim psz_fname psz_dir primary dacc]
      demux_read_hidden [of pv vars stream racc]
      detect_readdir_hidden [of env pv i_fuzzy f_fname_trim psz_fname psz_dir primary names dacc]
    by blast
qed

theorem hidden_entries_witness:
  "psz_name (example_item ''.movie.srt'' ITEM_TYPE_FILE) \<noteq> [] \<and>
   hd (psz_name (example_item ''.movie.srt'' ITEM_TYPE_FILE)) = CHR ''.'' \<and>
   psz_name (example_item ''.movie.srt'' ITEM_TYPE_FILE) \<noteq> ''.'' \<and>
   psz_name (example_item ''.movie.srt'' ITEM_TYPE_FILE) \<noteq> ''..'' \<and>
   psz_name (example_item ''.'' ITEM_TYPE_DIRECTORY) = ''.'' \<and>
   demux_entry vlc_prio_val
     \<lparr>show_hiddenfiles = True, ignore_filetypes = None, sub_autodetect_fuzzy = 1, directory_sort = None\<rparr>
     (example_item ''.'' ITEM_TYPE_DIRECTORY) ([], []) = ([], []) \<and>
   demux_entry vlc_prio_val
     \<lparr>show_hiddenfiles = False, ignore_filetypes = None, sub_autodetect_fuzzy = 1, directory_sort = None\<rparr>
     (example_item ''.movie.srt'' ITEM_TYPE_FILE) ([], []) = ([], []) \<and>
   demux_entry vlc_prio_val
     \<lparr>show_hiddenfiles = True, ignore_filetypes = None, sub_autodetect_fuzzy = 1, directory_sort = None\<rparr>
     (example_item ''.movie.srt'' ITEM_TYPE_FILE) ([], []) =
     ([], [Some \<lparr>slave_psz_uri = ''file:///d/.movie.srt'', slave_i_type = SLAVE_TYPE_SPU,
                  slave_i_priority = 0\<rparr>]) \<and>
   detect_entry (example_fs [''.movie.srt'']) vlc_prio_val 1 ''movie'' ''/d/movie.avi'' ''/d/'' True
     ''.movie.srt'' ([], []) = ([], [])"
proof -
  let ?hid = "example_item ''.movie.srt'' ITEM_TYPE_FILE"
  let ?dot = "example_item ''.'' ITEM_TYPE_DIRECTORY"
  let ?show = "\<lparr>show_hiddenfiles = True, ignore_filetypes = None, sub_autodetect_fuzzy = 1, directory_sort = None\<rparr>"
  let ?hide = "\<lparr>show_hiddenfiles = False, ignore_filetypes = None, sub_autodetect_fuzzy = 1, directory_sort = None\<rparr>"
  have n: "psz_name ?hid \<noteq> []" "hd (psz_name ?hid) = CHR ''.''" "psz_name ?hid \<noteq> ''.''"
    "psz_name ?hid \<noteq> ''..''" "psz_name ?dot = ''.''"
    by (simp_all add: example_item_def)
  have f: "show_hiddenfiles ?show" "\<not> show_hiddenfiles ?hide" by simp_all
  have s: "is_slave (psz_name ?hid) = Some SLAVE_TYPE_SPU" by code_simp
  have u: "psz_uri ?hid = ''file:///d/.movie.srt''" "uint8 (vlc_prio_val SLAVE_PRIORITY_NONE) = 0"
    by code_simp+
  have d: "''.movie.srt'' \<noteq> []" "hd ''.movie.srt'' = CHR ''.''" by simp_all
  note T = hidden_entries
  have 1: "demux_entry vlc_prio_val ?show ?dot ([], []) = ([], [])"
    using T [where p_item = ?dot and pv = vlc_prio_val and vars = ?show and acc = "([], [])"] n by blast
  have 2: "demux_entry vlc_prio_val ?hide ?hid ([], []) = ([], [])"
    using T [where p_item = ?hid and pv = vlc_prio_val and vars = ?hide and acc = "([], [])"] n f by blast
  have 3: "demux_entry vlc_prio_val ?show ?hid ([], []) =
     ([], [Some \<lparr>slave_psz_uri = ''file:///d/.movie.srt'', slave_i_type = SLAVE_TYPE_SPU,
                  slave_i_priority = 0\<rparr>])"
    using T [where p_item = ?hid and pv = vlc_prio_val and vars = ?show and acc = "([], [])"] n f s u by simp
  have 4: "detect_entry (example_fs [''.movie.srt'']) vlc_prio_val 1 ''movie'' ''/d/movie.avi'' ''/d/'' True
     ''.movie.srt'' ([], []) = ([], [])"
    using T [where name = "''.movie.srt''" and env = "example_fs [''.movie.srt'']" and pv = vlc_prio_val
        and i_fuzzy = 1 and f_fname_trim = "''movie''" and psz_fname = "''/d/movie.avi''"
        and psz_dir = "''/d/''" and primary = True and dacc = "([], [])"] d by blast
  from n 1 2 3 4 show ?thesis by blast
qed

text \<open>
  \<open>subtitles_Detect\<close> takes no setting for hidden files, so nothing makes it handle
  a name that begins with a dot: \<open>.movie.srt\<close> has a subtitle extension and is never a candidate for
  \<open>movie.avi\<close>, whereas \<open>movie.srt\<close> is.
\<close>

theorem detect_skips_hidden_subtitle:
  "subtitles_Filter ''.movie.srt'' \<and>
   result (subtitles_Detect (example_fs [''.movie.srt'']) vlc_prio_val 1 None (Some ''/d/movie.avi'') []) = [] \<and>
   length (result (subtitles_Detect (example_fs [''movie.srt'']) vlc_prio_val 1 None (Some ''/d/movie.avi'') [])) = 1"
  by code_simp

section \<open>The scorers\<close>

lemma strrchr_append_notin:
  "c \<notin> set y \<Longrightarrow> strrchr (x @ y) c = map_option (\<lambda>r. r @ y) (strrchr x c)"
  by (induction x) (auto simp: strrchr_None split: option.splits)

lemma strrchr_prepend_notin: "c \<notin> set p \<Longrightarrow> strrchr (p @ x) c = strrchr x c"
  by (induction p) (auto split: option.splits)

lemma strrchr_last: "c \<notin> set e \<Longrightarrow> strrchr (n @ c # e) c = Some (c # e)"
  by (induction n) (auto simp: strrchr_None split: option.splits)

lemma strip_ext_dot: "CHR ''.'' \<notin> set e \<Longrightarrow> strcpy_strip_ext (n @ CHR ''.'' # e) = map tolower n"
  by (simp add: strcpy_strip_ext_def strrchr_last)

lemma trim_loop_eq_Nil: "s = [] \<or> isalnum (hd s) \<Longrightarrow> strcpy_trim_loop s = [] \<longleftrightarrow> s = []"
  using trim_loop_normalized [of s] trim_loop_Nil by auto

lemma hd_dropWhile_nonalnum:
  "dropWhile (\<lambda>c. \<not> isalnum c) x = [] \<or> isalnum (hd (dropWhile (\<lambda>c. \<not> isalnum c) x))"
  using hd_dropWhile [of "\<lambda>c. \<not> isalnum c" x] by auto

lemma trim_eq_Nil: "strcpy_trim x = [] \<longleftrightarrow> dropWhile (\<lambda>c. \<not> isalnum c) x = []"
  unfolding strcpy_trim_def by (rule trim_loop_eq_Nil) (rule hd_dropWhile_nonalnum)

lemma trim_Cons_nonalnum: "\<not> isalnum c \<Longrightarrow> strcpy_trim (c # s) = strcpy_trim s"
  by (simp add: strcpy_trim_def)

lemma trim_loop_append:
  "s \<noteq> [] \<Longrightarrow> isalnum (hd s) \<Longrightarrow> y = [] \<or> \<not> isalnum (hd y) \<Longrightarrow>
   strcpy_trim_loop (s @ y) =
     strcpy_trim_loop s @ (if strcpy_trim y = [] then [] else CHR '' '' # strcpy_trim y)"
proof (induction s rule: strcpy_trim_loop.induct)
  case (1 s)
  let ?D = "dropWhile (\<lambda>c. \<not> isalnum c)"
  let ?t = "takeWhile isalnum s"
  let ?s1 = "dropWhile isalnum s"
  let ?w = "map tolower ?t"
  let ?tail = "if strcpy_trim y = [] then [] else CHR '' '' # strcpy_trim y"
  have ty: "takeWhile isalnum y = []" and dy: "dropWhile isalnum y = y"
    using "1.prems"(3) by (cases y; auto)+
  have tk: "takeWhile isalnum (s @ y) = ?t"
  proof (cases "\<forall>c \<in> set s. isalnum c")
    case True
    have e: "?t = s" using True by simp
    have "takeWhile isalnum (s @ y) = s @ takeWhile isalnum y" using True by (intro takeWhile_append2) simp
    thus ?thesis unfolding e ty by simp
  next
    case False
    thus ?thesis by auto
  qed
  have dk: "dropWhile isalnum (s @ y) = ?s1 @ y"
  proof (cases "\<forall>c \<in> set s. isalnum c")
    case True
    have e: "?s1 = []" using True by simp
    have "dropWhile isalnum (s @ y) = dropWhile isalnum y" using True by (intro dropWhile_append2) simp
    thus ?thesis unfolding e dy by simp
  next
    case False
    thus ?thesis by auto
  qed
  have Ty: "strcpy_trim y = strcpy_trim_loop (?D y)" by (simp add: strcpy_trim_def)
  have U: "strcpy_trim_loop (s @ y) =
     (if ?s1 @ y = [] then ?w
      else if ?D (?s1 @ y) = [] then ?w
      else ?w @ CHR '' '' # strcpy_trim_loop (?D (?s1 @ y)))"
    by (subst trim_loop_unfold) (simp only: tk dk)
  show ?case
  proof (cases "?s1 = []")
    case True
    hence ls: "strcpy_trim_loop s = ?w" by (subst trim_loop_unfold) simp
    show ?thesis
    proof (cases "y = []")
      case y: True
      thus ?thesis using trim_loop_Nil by (simp add: strcpy_trim_def)
    next
      case y: False
      from U have "strcpy_trim_loop (s @ y) =
          (if y = [] then ?w else if ?D y = [] then ?w else ?w @ CHR '' '' # strcpy_trim_loop (?D y))"
        by (simp only: True append_Nil)
      hence "strcpy_trim_loop (s @ y) = (if ?D y = [] then ?w else ?w @ CHR '' '' # strcpy_trim_loop (?D y))"
        by (simp only: y if_False)
      thus ?thesis using ls Ty trim_eq_Nil [of y] by simp
    qed
  next
    case False
    hence ne: "?s1 @ y \<noteq> []" by simp
    show ?thesis
    proof (cases "?D ?s1 = []")
      case True
      hence all: "\<forall>c \<in> set ?s1. \<not> isalnum c" by simp
      hence D2: "?D (?s1 @ y) = ?D y" by (intro dropWhile_append2) simp
      have ls: "strcpy_trim_loop s = ?w" using True False by (subst trim_loop_unfold) simp
      from U have "strcpy_trim_loop (s @ y) = (if ?D y = [] then ?w else ?w @ CHR '' '' # strcpy_trim_loop (?D y))"
        by (simp only: D2 ne if_False)
      thus ?thesis using ls Ty trim_eq_Nil [of y] by simp
    next
      case d: False
      hence nall: "\<not> (\<forall>c \<in> set ?s1. \<not> isalnum c)" by simp
      hence D2: "?D (?s1 @ y) = ?D ?s1 @ y" by (auto simp: dropWhile_append)
      have ne2: "?D ?s1 @ y \<noteq> []" using d by simp
      have ls: "strcpy_trim_loop s = ?w @ CHR '' '' # strcpy_trim_loop (?D ?s1)"
        using d False by (subst trim_loop_unfold) simp
      have hd: "isalnum (hd (?D ?s1))" using d hd_dropWhile_nonalnum [of ?s1] by blast
      have ih: "strcpy_trim_loop (?D ?s1 @ y) = strcpy_trim_loop (?D ?s1) @ ?tail"
        using "1.IH" [OF refl refl False refl d d hd "1.prems"(3)] .
      from U have "strcpy_trim_loop (s @ y) = ?w @ CHR '' '' # strcpy_trim_loop (?D ?s1 @ y)"
        by (simp only: D2 ne ne2 if_False)
      thus ?thesis using ls ih by simp
    qed
  qed
qed

lemma trim_append:
  assumes "y = [] \<or> \<not> isalnum (hd y)"
  shows "strcpy_trim (x @ y) =
     (if strcpy_trim x = [] then strcpy_trim y
      else strcpy_trim x @ (if strcpy_trim y = [] then [] else CHR '' '' # strcpy_trim y))"
proof (cases "dropWhile (\<lambda>c. \<not> isalnum c) x = []")
  case True
  hence "dropWhile (\<lambda>c. \<not> isalnum c) (x @ y) = dropWhile (\<lambda>c. \<not> isalnum c) y"
    by (simp add: dropWhile_append)
  thus ?thesis using True trim_eq_Nil [of x] by (simp add: strcpy_trim_def)
next
  case False
  hence "dropWhile (\<lambda>c. \<not> isalnum c) (x @ y) = dropWhile (\<lambda>c. \<not> isalnum c) x @ y"
    by (auto simp: dropWhile_append)
  moreover have "isalnum (hd (dropWhile (\<lambda>c. \<not> isalnum c) x))"
    using False hd_dropWhile_nonalnum [of x] by blast
  ultimately show ?thesis
    using False trim_eq_Nil [of x] trim_loop_append [OF False _ assms]
    by (simp add: strcpy_trim_def)
qed

lemma trim_prepend:
  assumes "p \<noteq> []" "\<not> isalnum (last p)"
  shows "strcpy_trim (p @ x) =
     (if strcpy_trim p = [] then strcpy_trim x
      else strcpy_trim p @ (if strcpy_trim x = [] then [] else CHR '' '' # strcpy_trim x))"
proof -
  let ?c = "last p"
  have p: "p = butlast p @ [?c]" using assms(1) by simp
  have c: "strcpy_trim [?c] = []" using assms(2) by (simp add: strcpy_trim_def trim_loop_Nil)
  have "strcpy_trim p = strcpy_trim (butlast p @ [?c])" using p by simp
  also have "\<dots> = strcpy_trim (butlast p)"
    using trim_append [of "[?c]" "butlast p"] assms(2) c by simp
  finally have bp: "strcpy_trim p = strcpy_trim (butlast p)" .
  have "strcpy_trim (p @ x) = strcpy_trim (butlast p @ (?c # x))"
    using p by (metis append_Cons append_Nil append_assoc)
  also have "\<dots> = (if strcpy_trim (butlast p) = [] then strcpy_trim (?c # x)
      else strcpy_trim (butlast p) @
        (if strcpy_trim (?c # x) = [] then [] else CHR '' '' # strcpy_trim (?c # x)))"
    using assms(2) by (intro trim_append) simp
  finally show ?thesis using bp trim_Cons_nonalnum [OF assms(2)] by simp
qed

lemma strstr_Some: "strstr h n = Some t \<Longrightarrow> (\<exists>q. h = q @ t) \<and> prefix n t"
proof (induction h)
  case Nil
  thus ?case by (auto split: if_splits)
next
  case (Cons a h)
  show ?case
  proof (cases "prefix n (a # h)")
    case True
    with Cons.prems show ?thesis by auto
  next
    case False
    with Cons.prems have "strstr h n = Some t" by simp
    from Cons.IH [OF this] show ?thesis by (metis append_Cons)
  qed
qed

lemma strstr_first: "h = p @ n @ r \<Longrightarrow> \<exists>t. strstr h n = Some t \<and> length (n @ r) \<le> length t"
proof (induction h arbitrary: p)
  case Nil
  thus ?case by simp
next
  case (Cons a h)
  show ?case
  proof (cases "prefix n (a # h)")
    case True
    hence "strstr (a # h) n = Some (a # h)" by simp
    moreover have "length (n @ r) \<le> length (a # h)" by (subst Cons.prems) simp
    ultimately show ?thesis by blast
  next
    case False
    hence "p \<noteq> []" using Cons.prems by (cases p) auto
    then obtain p' where "p = a # p'" "h = p' @ n @ r" using Cons.prems by (cases p) auto
    from Cons.IH [OF this(2)] False show ?thesis by simp
  qed
qed

lemma detect_prio_left:
  assumes h: "strcpy_trim (strcpy_strip_ext name) = p @ f @ r" and r: "r \<noteq> []" "isalnum (last r)"
  shows "detect_prio f name primary = SLAVE_PRIORITY_MATCH_LEFT"
proof -
  let ?h = "strcpy_trim (strcpy_strip_ext name)"
  from strstr_first [OF h] obtain t where t: "strstr ?h f = Some t" "length (f @ r) \<le> length t"
    by blast
  from strstr_Some [OF t(1)] obtain q tail where q: "?h = q @ t" "t = f @ tail"
    by (auto simp: prefix_def)
  have tl: "tail \<noteq> []" using t(2) q(2) r(1) by auto
  have "last ?h = last r" using h r(1) by simp
  moreover have "last ?h = last tail" using q tl by simp
  ultimately have "isalnum (last tail)" using r(2) by simp
  hence "\<not> whiteonly tail" using tl unfolding whiteonly_iff by (meson last_in_set)
  moreover have "length ?h = length p + length f + length r" by (subst h) simp
  hence "?h \<noteq> f" using r(1) by auto
  ultimately show ?thesis using t(1) q(2) by (simp add: detect_prio_def Let_def)
qed

lemma calculate_left:
  assumes h: "name_from_uri su = p @ name_from_uri iu @ r" and r: "r \<noteq> []"
  shows "calculate_slave_priority iu su = SLAVE_PRIORITY_MATCH_LEFT"
proof -
  let ?h = "name_from_uri su" and ?a = "name_from_uri iu"
  from strstr_first [OF h] obtain t where t: "strstr ?h ?a = Some t" "length (?a @ r) \<le> length t"
    by blast
  have "length ?a < length t" using t(2) r by (cases r) auto
  moreover have "length ?h \<noteq> length ?a" using r by (subst h) simp
  hence "?a \<noteq> ?h" by metis
  ultimately show ?thesis using t(1) by (simp add: calculate_slave_priority_def Let_def)
qed

lemma lower_year: "map tolower '' (2009)'' = '' (2009)''" by code_simp
lemma trim_year: "strcpy_trim '' (2009)'' = ''2009''" by code_simp
lemma lower_part: "map tolower ''Part1 - '' = ''part1 - ''" by code_simp
lemma lower_cd: "map tolower '' - CD2'' = '' - cd2''" by code_simp
lemma trim_part: "strcpy_trim ''part1 - '' = ''part1''" by code_simp
lemma trim_cd: "strcpy_trim '' - cd2'' = ''cd2''" by code_simp
lemma alnum_2: "isalnum CHR ''2''" by code_simp
lemma alnum_9: "isalnum CHR ''9''" by code_simp

lemma detect_prio_paren_year:
  assumes "CHR ''.'' \<notin> set e" "CHR ''.'' \<notin> set e'"
  shows "detect_prio (strcpy_trim (strcpy_strip_ext (N @ ''.'' @ e'))) (N @ '' (2009).'' @ e) primary
         = SLAVE_PRIORITY_MATCH_LEFT"
proof -
  let ?n = "strcpy_trim (map tolower N)"
  have f: "strcpy_strip_ext (N @ ''.'' @ e') = map tolower N"
    using strip_ext_dot [OF assms(2), of N] by simp
  have "strcpy_strip_ext ((N @ '' (2009)'') @ CHR ''.'' # e) = map tolower (N @ '' (2009)'')"
    by (rule strip_ext_dot [OF assms(1)])
  hence c: "strcpy_strip_ext (N @ '' (2009).'' @ e) = map tolower N @ '' (2009)''"
    using lower_year by simp
  have t: "strcpy_trim (map tolower N @ '' (2009)'') =
      (if ?n = [] then ''2009'' else ?n @ '' 2009'')"
    using trim_append [of "'' (2009)''" "map tolower N"] space_not_alnum trim_year by simp
  have "strcpy_trim (strcpy_strip_ext (N @ '' (2009).'' @ e)) = [] @ ?n @ (if ?n = [] then ''2009'' else '' 2009'')"
    unfolding c t by simp
  moreover have "(if ?n = [] then ''2009'' else '' 2009'') \<noteq> []" by simp
  moreover have "isalnum (last (if ?n = [] then ''2009'' else '' 2009''))" using alnum_9 by simp
  ultimately show ?thesis unfolding f by (rule detect_prio_left)
qed

lemma detect_prio_part_cd:
  assumes "CHR ''.'' \<notin> set e" "CHR ''.'' \<notin> set e'"
  shows "detect_prio (strcpy_trim (strcpy_strip_ext (N @ ''.'' @ e'))) (''Part1 - '' @ N @ '' - CD2.'' @ e) primary
         = SLAVE_PRIORITY_MATCH_LEFT"
proof -
  let ?n = "strcpy_trim (map tolower N)"
  have f: "strcpy_strip_ext (N @ ''.'' @ e') = map tolower N"
    using strip_ext_dot [OF assms(2), of N] by simp
  have "strcpy_strip_ext ((''Part1 - '' @ N @ '' - CD2'') @ CHR ''.'' # e) = map tolower (''Part1 - '' @ N @ '' - CD2'')"
    by (rule strip_ext_dot [OF assms(1)])
  hence c: "strcpy_strip_ext (''Part1 - '' @ N @ '' - CD2.'' @ e) = (''part1 - '' @ map tolower N) @ '' - cd2''"
    using lower_part lower_cd by simp
  have t1: "strcpy_trim (''part1 - '' @ map tolower N) = ''part1'' @ (if ?n = [] then [] else CHR '' '' # ?n)"
    using trim_prepend [of "''part1 - ''" "map tolower N"] space_not_alnum trim_part by simp
  have t: "strcpy_trim ((''part1 - '' @ map tolower N) @ '' - cd2'') =
      (''part1'' @ (if ?n = [] then [] else '' '')) @ ?n @ '' cd2''"
    using trim_append [of "'' - cd2''" "''part1 - '' @ map tolower N"] space_not_alnum trim_cd
    unfolding t1 by simp
  have "strcpy_trim (strcpy_strip_ext (''Part1 - '' @ N @ '' - CD2.'' @ e)) =
      (''part1'' @ (if ?n = [] then [] else '' '')) @ ?n @ '' cd2''"
    unfolding c t by simp
  moreover have "'' cd2'' \<noteq> []" by simp
  moreover have "isalnum (last '' cd2'')" using alnum_2 by simp
  ultimately show ?thesis unfolding f by (rule detect_prio_left)
qed

lemma detect_prio_substring:
  "strcpy_trim (strcpy_strip_ext name) \<noteq> f \<Longrightarrow> strstr (strcpy_trim (strcpy_strip_ext name)) f = Some t \<Longrightarrow>
   detect_prio f name primary =
     (if whiteonly (drop (length f) t) then SLAVE_PRIORITY_MATCH_RIGHT else SLAVE_PRIORITY_MATCH_LEFT)"
  by (simp add: detect_prio_def Let_def)

lemma calculate_substring:
  "name_from_uri su \<noteq> name_from_uri iu \<Longrightarrow> strstr (name_from_uri su) (name_from_uri iu) = Some t \<Longrightarrow>
   calculate_slave_priority iu su =
     (if drop (length (name_from_uri iu)) t = [] then SLAVE_PRIORITY_MATCH_RIGHT else SLAVE_PRIORITY_MATCH_LEFT)"
  by (auto simp add: calculate_slave_priority_def Let_def)

lemma strrchr_nonempty: "strrchr x c = Some r \<Longrightarrow> r \<noteq> []"
  by (induction x) (auto split: option.splits if_splits)

lemma uri_base_append: "CHR ''/'' \<notin> set y \<Longrightarrow> uri_base (x @ y) = uri_base x @ y"
  by (cases "strrchr x CHR ''/''") (auto simp: uri_base_def strrchr_append_notin dest: strrchr_nonempty)

lemma uri_base_prepend:
  "CHR ''/'' \<notin> set p \<Longrightarrow> uri_base (p @ x) = (if CHR ''/'' \<in> set x then uri_base x else p @ uri_base x)"
proof -
  assume p: "CHR ''/'' \<notin> set p"
  have "CHR ''/'' \<notin> set x \<Longrightarrow> strrchr x CHR ''/'' = None" by (rule strrchr_None)
  moreover have "CHR ''/'' \<in> set x \<Longrightarrow> strrchr x CHR ''/'' \<noteq> None"
    by (induction x) (auto split: option.splits)
  ultimately show ?thesis using p
    by (auto simp: uri_base_def strrchr_prepend_notin split: option.splits)
qed

lemma name_from_uri_suffix:
  assumes "CHR ''/'' \<notin> set sfx" "CHR ''/'' \<notin> set e" "CHR ''.'' \<notin> set e"
  shows "name_from_uri (x @ sfx @ CHR ''.'' # e) = map tolower (strip_blanks (uri_base x @ sfx))"
proof -
  have "CHR ''/'' \<notin> set (sfx @ CHR ''.'' # e)" using assms by simp
  hence b: "uri_base (x @ sfx @ CHR ''.'' # e) = uri_base x @ sfx @ CHR ''.'' # e"
    by (rule uri_base_append)
  have d: "strrchr ((uri_base x @ sfx) @ CHR ''.'' # e) CHR ''.'' = Some (CHR ''.'' # e)"
    by (rule strrchr_last [OF assms(3)])
  show ?thesis
    using b d unfolding name_from_uri_def uri_base_def strip_blanks_def
    by (simp add: Let_def)
qed

lemma rtrim_id:
  "y \<noteq> [] \<Longrightarrow> last y \<noteq> CHR '' '' \<Longrightarrow> rev (dropWhile (\<lambda>c. c = CHR '' '') (rev y)) = y"
  by (cases y rule: rev_cases) auto

lemma ltrim_decomp:
  "dropWhile (\<lambda>c. c = CHR '' '') z =
     strip_blanks z @ rev (takeWhile (\<lambda>c. c = CHR '' '') (rev (dropWhile (\<lambda>c. c = CHR '' '') z)))"
proof -
  let ?y = "dropWhile (\<lambda>c. c = CHR '' '') z"
  have "rev ?y = takeWhile (\<lambda>c. c = CHR '' '') (rev ?y) @ dropWhile (\<lambda>c. c = CHR '' '') (rev ?y)"
    by simp
  hence "rev (rev ?y) = rev (takeWhile (\<lambda>c. c = CHR '' '') (rev ?y) @ dropWhile (\<lambda>c. c = CHR '' '') (rev ?y))"
    by (rule arg_cong)
  thus ?thesis unfolding strip_blanks_def by (simp only: rev_rev_ident rev_append)
qed

lemma strip_decomp:
  "\<exists>l t. bn = l @ strip_blanks bn @ t \<and> dropWhile (\<lambda>c. c = CHR '' '') bn = strip_blanks bn @ t"
proof -
  let ?sp = "\<lambda>c. c = CHR '' ''"
  have c: "\<And>l d u t :: string. bn = l @ d \<Longrightarrow> d = u @ t \<Longrightarrow> bn = l @ u @ t" by simp
  have "bn = takeWhile ?sp bn @ dropWhile ?sp bn" by simp
  moreover have d: "dropWhile ?sp bn =
     strip_blanks bn @ rev (takeWhile ?sp (rev (dropWhile ?sp bn)))" by (rule ltrim_decomp)
  ultimately have "bn = takeWhile ?sp bn @ strip_blanks bn @ rev (takeWhile ?sp (rev (dropWhile ?sp bn)))"
    by (rule c)
  thus ?thesis using d by blast
qed

lemma strip_contains:
  assumes s: "sfx \<noteq> []" "last sfx \<noteq> CHR '' ''" and p: "pre = [] \<or> hd pre \<noteq> CHR '' ''"
  shows "\<exists>p r. r \<noteq> [] \<and> map tolower (strip_blanks (pre @ bn @ sfx)) = p @ map tolower (strip_blanks bn) @ r"
proof -
  let ?sp = "\<lambda>c. c = CHR '' ''"
  obtain l t u where u: "u = strip_blanks bn" and bn: "bn = l @ u @ t" and dec: "dropWhile ?sp bn = u @ t"
    using strip_decomp [of bn] by blast
  have r: "map tolower (t @ sfx) \<noteq> []" using s by simp
  show ?thesis
  proof (cases "pre = []")
    case False
    hence "dropWhile ?sp (pre @ bn @ sfx) = pre @ bn @ sfx" using p by (cases pre) auto
    moreover have "rev (dropWhile ?sp (rev (pre @ bn @ sfx))) = pre @ bn @ sfx"
      using s by (intro rtrim_id) simp_all
    ultimately have "strip_blanks (pre @ bn @ sfx) = pre @ bn @ sfx" by (simp add: strip_blanks_def)
    also have "\<dots> = (pre @ l) @ u @ (t @ sfx)" by (simp add: bn)
    finally have "map tolower (strip_blanks (pre @ bn @ sfx)) =
        map tolower (pre @ l) @ map tolower u @ map tolower (t @ sfx)"
      by (simp only: map_append)
    thus ?thesis using r unfolding u by blast
  next
    case True
    show ?thesis
    proof (cases "\<forall>c \<in> set bn. c = CHR '' ''")
      case all: True
      hence "dropWhile ?sp bn = []" by simp
      hence e: "u = []" using dec by simp
      have l: "dropWhile ?sp (bn @ sfx) = dropWhile ?sp sfx" using all by (intro dropWhile_append2) simp
      have "last sfx \<in> set sfx" using s by simp
      hence ne: "dropWhile ?sp sfx \<noteq> []" using s(2) by auto
      have "sfx = takeWhile ?sp sfx @ dropWhile ?sp sfx" by simp
      hence "last sfx = last (dropWhile ?sp sfx)" using ne by (metis last_appendR)
      hence "rev (dropWhile ?sp (rev (dropWhile ?sp sfx))) = dropWhile ?sp sfx"
        using ne s(2) by (intro rtrim_id) simp_all
      hence "strip_blanks (pre @ bn @ sfx) = dropWhile ?sp sfx"
        using True l by (simp add: strip_blanks_def)
      hence "map tolower (strip_blanks (pre @ bn @ sfx)) =
          [] @ map tolower u @ map tolower (dropWhile ?sp sfx)"
        using e by simp
      moreover have "map tolower (dropWhile ?sp sfx) \<noteq> []" using ne by simp
      ultimately show ?thesis unfolding u by blast
    next
      case nall: False
      hence l: "dropWhile ?sp (bn @ sfx) = dropWhile ?sp bn @ sfx" by (auto simp: dropWhile_append)
      have "rev (dropWhile ?sp (rev (dropWhile ?sp bn @ sfx))) = dropWhile ?sp bn @ sfx"
        using s by (intro rtrim_id) simp_all
      hence "strip_blanks (pre @ bn @ sfx) = dropWhile ?sp bn @ sfx"
        using True l by (simp add: strip_blanks_def)
      hence "strip_blanks (pre @ bn @ sfx) = u @ t @ sfx" unfolding dec by simp
      hence "map tolower (strip_blanks (pre @ bn @ sfx)) =
          [] @ map tolower u @ map tolower (t @ sfx)"
        by simp
      thus ?thesis using r unfolding u by blast
    qed
  qed
qed

lemma calculate_paren_year:
  assumes "CHR ''.'' \<notin> set e" "CHR ''.'' \<notin> set e'" "CHR ''/'' \<notin> set e" "CHR ''/'' \<notin> set e'"
  shows "calculate_slave_priority (N @ ''.'' @ e') (N @ '' (2009).'' @ e) = SLAVE_PRIORITY_MATCH_LEFT"
proof -
  have i: "name_from_uri (N @ ''.'' @ e') = map tolower (strip_blanks (uri_base N))"
    using name_from_uri_suffix [of "[]" e' N] assms by simp
  have "name_from_uri (N @ '' (2009)'' @ CHR ''.'' # e) = map tolower (strip_blanks (uri_base N @ '' (2009)''))"
    using assms by (intro name_from_uri_suffix) simp_all
  hence s: "name_from_uri (N @ '' (2009).'' @ e) = map tolower (strip_blanks ([] @ uri_base N @ '' (2009)''))"
    by simp
  from strip_contains [of "'' (2009)''" "[]" "uri_base N"]
  obtain p r where "r \<noteq> []"
    "map tolower (strip_blanks ([] @ uri_base N @ '' (2009)'')) = p @ map tolower (strip_blanks (uri_base N)) @ r"
    by auto
  thus ?thesis using i s by (intro calculate_left [of _ p _ r]) simp_all
qed

lemma calculate_part_cd:
  assumes "CHR ''.'' \<notin> set e" "CHR ''.'' \<notin> set e'" "CHR ''/'' \<notin> set e" "CHR ''/'' \<notin> set e'"
  shows "calculate_slave_priority (N @ ''.'' @ e') (''Part1 - '' @ N @ '' - CD2.'' @ e) = SLAVE_PRIORITY_MATCH_LEFT"
proof -
  let ?pre = "if CHR ''/'' \<in> set N then [] else ''Part1 - ''"
  have i: "name_from_uri (N @ ''.'' @ e') = map tolower (strip_blanks (uri_base N))"
    using name_from_uri_suffix [of "[]" e' N] assms by simp
  have b: "uri_base (''Part1 - '' @ N) = ?pre @ uri_base N"
    using uri_base_prepend [of "''Part1 - ''" N] by simp
  have "name_from_uri ((''Part1 - '' @ N) @ '' - CD2'' @ CHR ''.'' # e) =
      map tolower (strip_blanks (uri_base (''Part1 - '' @ N) @ '' - CD2''))"
    using assms by (intro name_from_uri_suffix) simp_all
  hence s: "name_from_uri (''Part1 - '' @ N @ '' - CD2.'' @ e) =
      map tolower (strip_blanks (?pre @ uri_base N @ '' - CD2''))"
    unfolding b by simp
  have "?pre = [] \<or> hd ?pre \<noteq> CHR '' ''" by simp
  from strip_contains [OF _ _ this, of "'' - CD2''" "uri_base N"]
  obtain p r where "r \<noteq> []"
    "map tolower (strip_blanks (?pre @ uri_base N @ '' - CD2'')) = p @ map tolower (strip_blanks (uri_base N)) @ r"
    by auto
  thus ?thesis using i s by (intro calculate_left [of _ p _ r]) simp_all
qed

text \<open>
  C1. Whatever the name \<open>N\<close> and the extensions, both scorers give \<open>N (2009).ext\<close> the
  priority MatchLeft, not MatchRight: something follows the name of the movie, and in
  the scan of \<open>subtitles_Detect\<close> the digits of the year are alphanumeric. Both give
  \<open>Part1 - N - CD2.ext\<close> the priority MatchLeft. When the two normalised names differ
  and that of the movie occurs in that of the candidate, \<open>subtitles_Detect\<close> gives
  MatchRight exactly when nothing alphanumeric follows the first occurrence and
  \<open>calculate_slave_priority\<close> exactly when nothing at all follows it; both give
  MatchLeft otherwise.
\<close>

theorem scorer_decoration:
  "(CHR ''.'' \<notin> set e \<and> CHR ''.'' \<notin> set e' \<longrightarrow>
      detect_prio (strcpy_trim (strcpy_strip_ext (N @ ''.'' @ e'))) (N @ '' (2009).'' @ e) primary
        = SLAVE_PRIORITY_MATCH_LEFT \<and>
      detect_prio (strcpy_trim (strcpy_strip_ext (N @ ''.'' @ e'))) (''Part1 - '' @ N @ '' - CD2.'' @ e) primary
        = SLAVE_PRIORITY_MATCH_LEFT) \<and>
   (CHR ''.'' \<notin> set e \<and> CHR ''.'' \<notin> set e' \<and> CHR ''/'' \<notin> set e \<and> CHR ''/'' \<notin> set e' \<longrightarrow>
      calculate_slave_priority (N @ ''.'' @ e') (N @ '' (2009).'' @ e) = SLAVE_PRIORITY_MATCH_LEFT \<and>
      calculate_slave_priority (N @ ''.'' @ e') (''Part1 - '' @ N @ '' - CD2.'' @ e)
        = SLAVE_PRIORITY_MATCH_LEFT) \<and>
   (strcpy_trim (strcpy_strip_ext name) \<noteq> f \<and> strstr (strcpy_trim (strcpy_strip_ext name)) f = Some t \<longrightarrow>
      detect_prio f name primary =
        (if whiteonly (drop (length f) t) then SLAVE_PRIORITY_MATCH_RIGHT else SLAVE_PRIORITY_MATCH_LEFT)) \<and>
   (name_from_uri su \<noteq> name_from_uri iu \<and> strstr (name_from_uri su) (name_from_uri iu) = Some t' \<longrightarrow>
      calculate_slave_priority iu su =
        (if drop (length (name_from_uri iu)) t' = [] then SLAVE_PRIORITY_MATCH_RIGHT
         else SLAVE_PRIORITY_MATCH_LEFT))"
  using detect_prio_paren_year [of e e' N primary] detect_prio_part_cd [of e e' N primary]
    calculate_paren_year [of e e' N] calculate_part_cd [of e e' N]
    detect_prio_substring [of name f t primary] calculate_substring [of su iu t']
  by blast

theorem scorer_decoration_witness:
  "CHR ''.'' \<notin> set ''srt'' \<and> CHR ''.'' \<notin> set ''avi'' \<and> CHR ''/'' \<notin> set ''srt'' \<and> CHR ''/'' \<notin> set ''avi'' \<and>
   detect_prio (strcpy_trim (strcpy_strip_ext (''The Movie'' @ ''.'' @ ''avi'')))
     (''The Movie'' @ '' (2009).'' @ ''srt'') True = SLAVE_PRIORITY_MATCH_LEFT \<and>
   calculate_slave_priority (''/d/The Movie'' @ ''.'' @ ''avi'') (''Part1 - '' @ ''/d/The Movie'' @ '' - CD2.'' @ ''srt'')
     = SLAVE_PRIORITY_MATCH_LEFT \<and>
   strcpy_trim (strcpy_strip_ext ''cd1 movie.srt'') \<noteq> ''movie'' \<and>
   strstr (strcpy_trim (strcpy_strip_ext ''cd1 movie.srt'')) ''movie'' = Some ''movie'' \<and>
   detect_prio ''movie'' ''cd1 movie.srt'' True = SLAVE_PRIORITY_MATCH_RIGHT \<and>
   name_from_uri ''/d/cd1 movie.srt'' \<noteq> name_from_uri ''/d/movie.avi'' \<and>
   strstr (name_from_uri ''/d/cd1 movie.srt'') (name_from_uri ''/d/movie.avi'') = Some ''movie'' \<and>
   calculate_slave_priority ''/d/movie.avi'' ''/d/cd1 movie.srt'' = SLAVE_PRIORITY_MATCH_RIGHT"
proof -
  have h: "CHR ''.'' \<notin> set ''srt''" "CHR ''.'' \<notin> set ''avi''" "CHR ''/'' \<notin> set ''srt''"
    "CHR ''/'' \<notin> set ''avi''" by simp_all
  have a: "strcpy_trim (strcpy_strip_ext ''cd1 movie.srt'') \<noteq> ''movie''"
    "strstr (strcpy_trim (strcpy_strip_ext ''cd1 movie.srt'')) ''movie'' = Some ''movie''"
    "whiteonly (drop (length ''movie'') ''movie'')" by code_simp+
  have b: "name_from_uri ''/d/cd1 movie.srt'' \<noteq> name_from_uri ''/d/movie.avi''"
    "strstr (name_from_uri ''/d/cd1 movie.srt'') (name_from_uri ''/d/movie.avi'') = Some ''movie''"
    "drop (length (name_from_uri ''/d/movie.avi'')) ''movie'' = []" by code_simp+
  have 1: "detect_prio (strcpy_trim (strcpy_strip_ext (''The Movie'' @ ''.'' @ ''avi'')))
     (''The Movie'' @ '' (2009).'' @ ''srt'') True = SLAVE_PRIORITY_MATCH_LEFT"
    using scorer_decoration [of "''srt''" "''avi''" "''The Movie''" True] h by blast
  have 2: "calculate_slave_priority (''/d/The Movie'' @ ''.'' @ ''avi'')
     (''Part1 - '' @ ''/d/The Movie'' @ '' - CD2.'' @ ''srt'') = SLAVE_PRIORITY_MATCH_LEFT"
    using scorer_decoration [of "''srt''" "''avi''" "''/d/The Movie''"] h by blast
  have 3: "detect_prio ''movie'' ''cd1 movie.srt'' True = SLAVE_PRIORITY_MATCH_RIGHT"
    using scorer_decoration [where name = "''cd1 movie.srt''" and f = "''movie''" and t = "''movie''"
        and primary = True] a by simp
  have 4: "calculate_slave_priority ''/d/movie.avi'' ''/d/cd1 movie.srt'' = SLAVE_PRIORITY_MATCH_RIGHT"
    using scorer_decoration [where su = "''/d/cd1 movie.srt''" and iu = "''/d/movie.avi''" and t' = "''movie''"]
      b by simp
  from h a b 1 2 3 4 show ?thesis by blast
qed

text \<open>
  An instance: \<open>movie (2009).srt\<close> is scored MatchLeft for \<open>movie.avi\<close>, not
  MatchRight; and for \<open>calculate_slave_priority\<close> a tail without anything
  alphanumeric in it, as in \<open>movie -.srt\<close>, gives MatchLeft as well.
\<close>

theorem paren_year_is_match_left:
  "detect_prio (strcpy_trim (strcpy_strip_ext ''movie.avi'')) ''movie (2009).srt'' True
     = SLAVE_PRIORITY_MATCH_LEFT \<and>
   calculate_slave_priority ''/d/movie.avi'' ''/d/movie (2009).srt'' = SLAVE_PRIORITY_MATCH_LEFT \<and>
   calculate_slave_priority ''/d/movie.avi'' ''/d/movie -.srt'' = SLAVE_PRIORITY_MATCH_LEFT \<and>
   SLAVE_PRIORITY_MATCH_LEFT \<noteq> SLAVE_PRIORITY_MATCH_RIGHT"
  by code_simp

section \<open>A movie whose name normalises to nothing\<close>

lemma strstr_empty: "strstr h [] = Some h"
  by (cases h) simp_all

lemma normalized_not_whiteonly: "normalized h \<Longrightarrow> h \<noteq> [] \<Longrightarrow> \<not> whiteonly h"
proof -
  assume n: "normalized h" and h: "h \<noteq> []"
  then obtain c cs where c: "h = c # cs" by (cases h) auto
  with n have "lowalnum c" by (auto simp: normalized_def split: if_splits)
  hence "isalnum c" by (rule lowalnum_isalnum)
  thus ?thesis using c by (auto simp: whiteonly_iff)
qed

lemma detect_prio_empty_primary:
  "detect_prio [] name primary =
     (if strcpy_trim (strcpy_strip_ext name) = [] then SLAVE_PRIORITY_MATCH_ALL
      else SLAVE_PRIORITY_MATCH_LEFT)"
  using normalized_not_whiteonly [OF strcpy_trim_normalized, of "strcpy_strip_ext name"]
  by (simp add: detect_prio_def Let_def strstr_empty)

lemma calculate_empty_primary:
  "name_from_uri iu = [] \<Longrightarrow>
   calculate_slave_priority iu su =
     (if name_from_uri su = [] then SLAVE_PRIORITY_MATCH_ALL else SLAVE_PRIORITY_MATCH_LEFT)"
  by (auto simp add: calculate_slave_priority_def Let_def strstr_empty)

text \<open>
  C2. When the normalised name of the movie is empty, a candidate whose normalised name
  is empty too is scored MatchAll, and every other candidate is scored MatchLeft: the
  empty name is found at the start of any name, and the whole name of the candidate
  follows it. No candidate is scored MatchRight, MatchNone or None. This holds for
  both scorers.
\<close>

theorem empty_primary_name:
  "detect_prio [] name primary =
     (if strcpy_trim (strcpy_strip_ext name) = [] then SLAVE_PRIORITY_MATCH_ALL
      else SLAVE_PRIORITY_MATCH_LEFT) \<and>
   (name_from_uri iu = [] \<longrightarrow>
      calculate_slave_priority iu su =
        (if name_from_uri su = [] then SLAVE_PRIORITY_MATCH_ALL else SLAVE_PRIORITY_MATCH_LEFT))"
  using detect_prio_empty_primary [of name primary] calculate_empty_primary [of iu su] by blast

theorem empty_primary_name_witness:
  "name_from_uri ''/d/ .avi'' = [] \<and> name_from_uri ''/d/other.srt'' \<noteq> [] \<and>
   calculate_slave_priority ''/d/ .avi'' ''/d/other.srt'' = SLAVE_PRIORITY_MATCH_LEFT"
proof -
  have h: "name_from_uri ''/d/ .avi'' = []" "name_from_uri ''/d/other.srt'' \<noteq> []" by code_simp+
  from empty_primary_name [of _ _ "''/d/ .avi''" "''/d/other.srt''"] h show ?thesis by simp
qed

text \<open>
  An instance: the normalised name of the movie \<open>---.avi\<close> is empty, and in its own
  directory \<open>other.srt\<close> is scored MatchLeft, not MatchNone.
\<close>

theorem empty_primary_gives_match_left:
  "strcpy_trim (strcpy_strip_ext ''---.avi'') = [] \<and>
   detect_prio (strcpy_trim (strcpy_strip_ext ''---.avi'')) ''other.srt'' True = SLAVE_PRIORITY_MATCH_LEFT \<and>
   SLAVE_PRIORITY_MATCH_LEFT \<noteq> SLAVE_PRIORITY_MATCH_NONE"
  by code_simp

section \<open>The order of the children\<close>

lemma vpiece_cmp_eq: "vpiece_cmp x y = 0 \<longleftrightarrow> x = y"
  by (cases x; cases y) auto

lemma vpiece_cmp_range: "vpiece_cmp x y = - 1 \<or> vpiece_cmp x y = 0 \<or> vpiece_cmp x y = 1"
  by (cases x; cases y) auto

lemma vpiece_cmp_flip: "0 < vpiece_cmp x y \<longleftrightarrow> vpiece_cmp y x < 0"
  by (cases x; cases y) auto

lemma vpiece_cmp_trans: "vpiece_cmp x y < 0 \<Longrightarrow> vpiece_cmp y z < 0 \<Longrightarrow> vpiece_cmp x z < 0"
  by (cases x; cases y; cases z) (auto split: if_splits)

lemma vpieces_cmp_Cons_le:
  "vpieces_cmp (x # xs) (y # ys) \<le> 0 \<longleftrightarrow> vpiece_cmp x y < 0 \<or> (x = y \<and> vpieces_cmp xs ys \<le> 0)"
  using vpiece_cmp_range [of x y] vpiece_cmp_eq [of x y] by auto

lemma vpieces_cmp_total: "\<not> vpieces_cmp xs ys \<le> 0 \<Longrightarrow> vpieces_cmp ys xs \<le> 0"
proof (induction xs ys rule: vpieces_cmp.induct)
  case (4 x xs y ys)
  show ?case
  proof (cases "x = y")
    case True
    moreover have "\<not> vpieces_cmp xs ys \<le> 0"
      using "4.prems" True by (simp only: vpieces_cmp_Cons_le) blast
    moreover have "vpiece_cmp x y = 0" using True by (simp add: vpiece_cmp_eq)
    ultimately show ?thesis using "4.IH" by (simp only: vpieces_cmp_Cons_le) blast
  next
    case False
    hence "vpiece_cmp x y \<noteq> 0" by (simp add: vpiece_cmp_eq)
    moreover have "\<not> vpiece_cmp x y < 0" using "4.prems" by (simp only: vpieces_cmp_Cons_le) blast
    ultimately have "0 < vpiece_cmp x y" by simp
    hence "vpiece_cmp y x < 0" by (simp add: vpiece_cmp_flip)
    thus ?thesis by (simp add: vpieces_cmp_Cons_le)
  qed
qed simp_all

lemma vpieces_cmp_trans:
  "vpieces_cmp xs ys \<le> 0 \<Longrightarrow> vpieces_cmp ys zs \<le> 0 \<Longrightarrow> vpieces_cmp xs zs \<le> 0"
proof (induction xs arbitrary: ys zs)
  case Nil
  thus ?case by (cases zs) simp_all
next
  case (Cons x xs)
  from Cons.prems(1) obtain y ys' where ys: "ys = y # ys'" by (cases ys) auto
  from Cons.prems(2) ys obtain z zs' where zs: "zs = z # zs'" by (cases zs) auto
  from Cons.prems ys zs
  have a: "vpiece_cmp x y < 0 \<or> (x = y \<and> vpieces_cmp xs ys' \<le> 0)"
    and b: "vpiece_cmp y z < 0 \<or> (y = z \<and> vpieces_cmp ys' zs' \<le> 0)"
    by (simp_all only: vpieces_cmp_Cons_le)
  have "vpiece_cmp x z < 0 \<or> (x = z \<and> vpieces_cmp xs zs' \<le> 0)"
    using a b vpiece_cmp_trans [of x y z] Cons.IH [of ys' zs'] by blast
  thus ?case unfolding zs by (simp only: vpieces_cmp_Cons_le)
qed

lemma compar_version_eq:
  "compar_version a b =
     (if i_type a = ITEM_TYPE_DIRECTORY \<and> i_type b \<noteq> ITEM_TYPE_DIRECTORY then - 1
      else if i_type a \<noteq> ITEM_TYPE_DIRECTORY \<and> i_type b = ITEM_TYPE_DIRECTORY then 1
      else strverscmp (psz_name a) (psz_name b))"
  by (auto simp: compar_version_def compar_type_def Let_def)

lemma version_le_total: "\<not> version_le a b \<Longrightarrow> version_le b a"
  using vpieces_cmp_total [of "vpieces (psz_name a)" "vpieces (psz_name b)"]
  by (auto simp: version_le_def compar_version_eq strverscmp_def split: if_splits)

lemma version_le_trans: "version_le a b \<Longrightarrow> version_le b c \<Longrightarrow> version_le a c"
  using vpieces_cmp_trans [of "vpieces (psz_name a)" "vpieces (psz_name b)" "vpieces (psz_name c)"]
  by (auto simp: version_le_def compar_version_eq strverscmp_def split: if_splits)

lemma sorted_node_insert:
  "sorted_wrt version_le ys \<Longrightarrow> sorted_wrt version_le (node_insert compar_version x ys)"
proof (induction ys)
  case Nil
  show ?case by simp
next
  case (Cons y ys)
  show ?case
  proof (cases "compar_version x y \<le> 0")
    case True
    hence xy: "version_le x y" by (simp add: version_le_def)
    have "\<forall>z \<in> set ys. version_le x z"
      using Cons.prems xy by (auto intro: version_le_trans)
    thus ?thesis using True xy Cons.prems by simp
  next
    case False
    hence "version_le y x" using version_le_total [of x y] by (simp add: version_le_def)
    thus ?thesis using False Cons by (auto simp: set_node_insert)
  qed
qed

lemma sorted_node_Sort: "sorted_wrt version_le (input_item_node_Sort compar_version xs)"
  by (induction xs) (simp_all add: sorted_node_insert)

lemma count_node_insert: "count_list (node_insert compar x ys) z = count_list (x # ys) z"
  by (induction ys) auto

lemma count_node_Sort: "count_list (input_item_node_Sort compar xs) z = count_list xs z"
  by (induction xs) (auto simp: count_node_insert)

lemma length_node_insert: "length (node_insert compar x ys) = Suc (length ys)"
  by (induction ys) auto

lemma sorted_dirs_first:
  assumes "sorted_wrt version_le r" "i < length r" "j < length r"
    "i_type (r ! j) = ITEM_TYPE_DIRECTORY" "i_type (r ! i) \<noteq> ITEM_TYPE_DIRECTORY"
  shows "j < i"
proof (rule ccontr)
  assume "\<not> j < i"
  moreover have "i \<noteq> j" using assms(4,5) by auto
  ultimately have "i < j" by simp
  hence "version_le (r ! i) (r ! j)" using assms(1,3) by (simp add: sorted_wrt_iff_nth_less)
  thus False using assms(4,5) by (simp add: version_le_def compar_version_eq)
qed

lemma none_not_version: "strcasecmp_is0 s ''none'' \<Longrightarrow> \<not> strcasecmp_is0 s ''version''"
proof -
  have "map tolower ''none'' \<noteq> map tolower ''version''" by simp
  thus "strcasecmp_is0 s ''none'' \<Longrightarrow> \<not> strcasecmp_is0 s ''version''"
    by (simp add: strcasecmp_is0_def)
qed

lemma track_example: "strverscmp ''track2.mkv'' ''track10.mkv'' < 0" by code_simp

text \<open>
  C9. When the stream has not reported its directory as already sorted and the sort
  mode is \<open>version\<close>, the children of the node come out ordered by \<open>compar_version\<close>:
  the same items, every directory before every item that is not one, and items of the
  same type in the order of \<open>strverscmp\<close> on their names, in which runs of digits count
  by their value, so that \<open>track2.mkv\<close> comes before \<open>track10.mkv\<close>. With the sort
  mode \<open>none\<close> the children keep the order in which they were read, and so they do,
  whatever the sort mode, when the stream reports the directory as sorted: \<open>Demux\<close>
  does not sort at all then.
\<close>

theorem version_sort:
  "(\<not> b_dir_sorted p_sys \<and> directory_sort vars = Some psz_sort \<and> strcasecmp_is0 psz_sort ''version'' \<longrightarrow>
      sorted_wrt (\<lambda>a b. compar_version a b \<le> 0) (demux_sort strcoll p_sys vars children) \<and>
      (\<forall>x. count_list (demux_sort strcoll p_sys vars children) x = count_list children x) \<and>
      (\<forall>i j. i < length (demux_sort strcoll p_sys vars children) \<and>
             j < length (demux_sort strcoll p_sys vars children) \<and>
             i_type (demux_sort strcoll p_sys vars children ! j) = ITEM_TYPE_DIRECTORY \<and>
             i_type (demux_sort strcoll p_sys vars children ! i) \<noteq> ITEM_TYPE_DIRECTORY \<longrightarrow> j < i)) \<and>
   (i_type p1 = i_type p2 \<longrightarrow> compar_version p1 p2 = strverscmp (psz_name p1) (psz_name p2)) \<and>
   strverscmp ''track2.mkv'' ''track10.mkv'' < 0 \<and>
   (directory_sort vars = Some psz_sort \<and> strcasecmp_is0 psz_sort ''none'' \<longrightarrow>
      demux_sort strcoll p_sys vars children = children) \<and>
   (b_dir_sorted p_sys \<longrightarrow> demux_sort strcoll p_sys vars children = children)"
proof -
  have le: "(\<lambda>a b. compar_version a b \<le> 0) = version_le" by (simp add: version_le_def fun_eq_iff)
  have 1: "\<not> b_dir_sorted p_sys \<and> directory_sort vars = Some psz_sort \<and> strcasecmp_is0 psz_sort ''version'' \<Longrightarrow>
      demux_sort strcoll p_sys vars children = input_item_node_Sort compar_version children"
    by (simp add: demux_sort_def)
  have 2: "i_type p1 = i_type p2 \<longrightarrow> compar_version p1 p2 = strverscmp (psz_name p1) (psz_name p2)"
    by (simp add: compar_version_eq)
  have 3: "directory_sort vars = Some psz_sort \<and> strcasecmp_is0 psz_sort ''none'' \<longrightarrow>
      demux_sort strcoll p_sys vars children = children"
    using none_not_version [of psz_sort] by (auto simp: demux_sort_def)
  have 4: "b_dir_sorted p_sys \<longrightarrow> demux_sort strcoll p_sys vars children = children"
    by (simp add: demux_sort_def)
  show ?thesis
    unfolding le using 1 2 3 4 track_example sorted_node_Sort [of children] count_node_Sort [of compar_version children]
      sorted_dirs_first [of "input_item_node_Sort compar_version children"]
    by auto
qed

theorem version_sort_witness:
  "\<not> b_dir_sorted \<lparr>b_dir_sorted = False, b_dir_can_loop = False\<rparr> \<and>
   directory_sort \<lparr>show_hiddenfiles = False, ignore_filetypes = None, sub_autodetect_fuzzy = 1,
                    directory_sort = Some ''Version''\<rparr> = Some ''Version'' \<and>
   strcasecmp_is0 ''Version'' ''version'' \<and>
   sorted_wrt (\<lambda>a b. compar_version a b \<le> 0)
     (demux_sort (\<lambda>a b. 0) \<lparr>b_dir_sorted = False, b_dir_can_loop = False\<rparr>
        \<lparr>show_hiddenfiles = False, ignore_filetypes = None, sub_autodetect_fuzzy = 1,
          directory_sort = Some ''Version''\<rparr>
        [example_item ''track10.mkv'' ITEM_TYPE_FILE, example_item ''extras'' ITEM_TYPE_DIRECTORY,
         example_item ''track2.mkv'' ITEM_TYPE_FILE]) \<and>
   demux_sort (\<lambda>a b. 0) \<lparr>b_dir_sorted = False, b_dir_can_loop = False\<rparr>
        \<lparr>show_hiddenfiles = False, ignore_filetypes = None, sub_autodetect_fuzzy = 1,
          directory_sort = Some ''Version''\<rparr>
        [example_item ''track10.mkv'' ITEM_TYPE_FILE, example_item ''extras'' ITEM_TYPE_DIRECTORY,
         example_item ''track2.mkv'' ITEM_TYPE_FILE] =
     [example_item ''extras'' ITEM_TYPE_DIRECTORY, example_item ''track2.mkv'' ITEM_TYPE_FILE,
      example_item ''track10.mkv'' ITEM_TYPE_FILE] \<and>
   i_type (example_item ''track2.mkv'' ITEM_TYPE_FILE) = i_type (example_item ''track10.mkv'' ITEM_TYPE_FILE) \<and>
   compar_version (example_item ''track2.mkv'' ITEM_TYPE_FILE) (example_item ''track10.mkv'' ITEM_TYPE_FILE)
     = strverscmp (psz_name (example_item ''track2.mkv'' ITEM_TYPE_FILE))
                  (psz_name (example_item ''track10.mkv'' ITEM_TYPE_FILE)) \<and>
   directory_sort \<lparr>show_hiddenfiles = False, ignore_filetypes = None, sub_autodetect_fuzzy = 1,
                    directory_sort = Some ''none''\<rparr> = Some ''none'' \<and>
   strcasecmp_is0 ''none'' ''none'' \<and>
   demux_sort (\<lambda>a b. 0) \<lparr>b_dir_sorted = False, b_dir_can_loop = False\<rparr>
        \<lparr>show_hiddenfiles = False, ignore_filetypes = None, sub_autodetect_fuzzy = 1,
          directory_sort = Some ''none''\<rparr>
        [example_item ''track10.mkv'' ITEM_TYPE_FILE, example_item ''extras'' ITEM_TYPE_DIRECTORY] =
     [example_item ''track10.mkv'' ITEM_TYPE_FILE, example_item ''extras'' ITEM_TYPE_DIRECTORY] \<and>
   b_dir_sorted \<lparr>b_dir_sorted = True, b_dir_can_loop = False\<rparr> \<and>
   demux_sort (\<lambda>a b. 0) \<lparr>b_dir_sorted = True, b_dir_can_loop = False\<rparr>
        \<lparr>show_hiddenfiles = False, ignore_filetypes = None, sub_autodetect_fuzzy = 1,
          directory_sort = Some ''Version''\<rparr>
        [example_item ''track10.mkv'' ITEM_TYPE_FILE, example_item ''extras'' ITEM_TYPE_DIRECTORY] =
     [example_item ''track10.mkv'' ITEM_TYPE_FILE, example_item ''extras'' ITEM_TYPE_DIRECTORY]"
proof -
  let ?sys = "\<lparr>b_dir_sorted = False, b_dir_can_loop = False\<rparr>"
  let ?srt = "\<lparr>b_dir_sorted = True, b_dir_can_loop = False\<rparr>"
  let ?ver = "\<lparr>show_hiddenfiles = False, ignore_filetypes = None, sub_autodetect_fuzzy = 1,
          directory_sort = Some ''Version''\<rparr>"
  let ?non = "\<lparr>show_hiddenfiles = False, ignore_filetypes = None, sub_autodetect_fuzzy = 1,
          directory_sort = Some ''none''\<rparr>"
  let ?a = "example_item ''track2.mkv'' ITEM_TYPE_FILE"
  let ?b = "example_item ''track10.mkv'' ITEM_TYPE_FILE"
  let ?d = "example_item ''extras'' ITEM_TYPE_DIRECTORY"
  have h: "\<not> b_dir_sorted ?sys" "directory_sort ?ver = Some ''Version''"
    "directory_sort ?non = Some ''none''" "i_type ?a = i_type ?b"
    by (simp_all add: example_item_def)
  have c: "strcasecmp_is0 ''Version'' ''version''" "strcasecmp_is0 ''none'' ''none''" by code_simp+
  have e: "demux_sort (\<lambda>a b. 0) ?sys ?ver [?b, ?d, ?a] = [?d, ?a, ?b]" by code_simp
  have 1: "sorted_wrt (\<lambda>a b. compar_version a b \<le> 0) (demux_sort (\<lambda>a b. 0) ?sys ?ver [?b, ?d, ?a])"
    using version_sort [where p_sys = ?sys and vars = ?ver and psz_sort = "''Version''"
        and strcoll = "\<lambda>a b. 0" and children = "[?b, ?d, ?a]"] h c by blast
  have 2: "compar_version ?a ?b = strverscmp (psz_name ?a) (psz_name ?b)"
    using version_sort [where ?p1.0 = ?a and ?p2.0 = ?b] h by blast
  have 3: "demux_sort (\<lambda>a b. 0) ?sys ?non [?b, ?d] = [?b, ?d]"
    using version_sort [where p_sys = ?sys and vars = ?non and psz_sort = "''none''"
        and strcoll = "\<lambda>a b. 0" and children = "[?b, ?d]"] h c by blast
  have s: "b_dir_sorted ?srt" by simp
  have 4: "demux_sort (\<lambda>a b. 0) ?srt ?ver [?b, ?d] = [?b, ?d]"
    using version_sort [where p_sys = ?srt and vars = ?ver and strcoll = "\<lambda>a b. 0"
        and children = "[?b, ?d]"] s by blast
  from h c e 1 2 3 s 4 show ?thesis by blast
qed

text \<open>
  An instance where the stream reports the directory as sorted: with the sort mode
  \<open>version\<close> the file read first stays before the directory.
\<close>

theorem sorted_stream_is_not_sorted_again:
  "node_children (Demux (\<lambda>a b. 0) vlc_prio_val \<lparr>b_dir_sorted = True, b_dir_can_loop = False\<rparr>
      \<lparr>show_hiddenfiles = False, ignore_filetypes = None, sub_autodetect_fuzzy = 1,
        directory_sort = Some ''version''\<rparr>
      [example_item ''track10.mkv'' ITEM_TYPE_FILE, example_item ''extras'' ITEM_TYPE_DIRECTORY]) =
     [example_item ''track10.mkv'' ITEM_TYPE_FILE, example_item ''extras'' ITEM_TYPE_DIRECTORY] \<and>
   i_type (example_item ''track10.mkv'' ITEM_TYPE_FILE) \<noteq> ITEM_TYPE_DIRECTORY \<and>
   i_type (example_item ''extras'' ITEM_TYPE_DIRECTORY) = ITEM_TYPE_DIRECTORY"
  by code_simp

end
